theory Spec2Isabelle
  imports Main
begin

section \<open>Regular expressions with leftmost-first matching\<close>

text \<open>
  \<^verbatim>\<open>extractReferencesBlock\<close> is written with two patterns of Go's \<^verbatim>\<open>regexp\<close> package.
  That package returns the match that begins earliest in the input and, among the matches
  that begin there, the one a backtracking search finds first. The model below is that
  backtracking search: \<open>run r s\<close> lists every way \<open>r\<close> can match at the state \<open>s\<close>, in
  the order a backtracking matcher tries them, so the head of the list is the preferred
  match.

  A Go string is a sequence of bytes and so is a HOL \<open>string\<close>. The patterns of this
  program only name ASCII bytes, and \<^verbatim>\<open>.\<close> is always followed by an ASCII byte, so matching
  byte by byte finds the same spans as matching rune by rune.
\<close>

datatype regex =
    Eps
  | Lit char
  | AnyChar
  | AnyCharNotNL
  | Space
  | Digit
  | BeginLine
  | EndLine
  | Cat regex regex
  | Alt regex regex
  | Quest regex
  | Star regex
  | LazyStar regex
  | Capture nat regex

text \<open>
  \<open>AnyChar\<close> is \<^verbatim>\<open>.\<close> under the flag \<^verbatim>\<open>s\<close>, \<open>AnyCharNotNL\<close> is \<^verbatim>\<open>.\<close> without it;
  \<open>BeginLine\<close> and \<open>EndLine\<close> are \<^verbatim>\<open>^\<close> and \<^verbatim>\<open>$\<close> under the flag \<^verbatim>\<open>m\<close>;
  \<open>Star\<close> is the greedy \<^verbatim>\<open>*\<close>, \<open>LazyStar\<close> is \<^verbatim>\<open>*?\<close>, \<open>Quest\<close> is the greedy \<^verbatim>\<open>?\<close>.
\<close>

definition Plus :: "regex \<Rightarrow> regex" where
  "Plus r = Cat r (Star r)"

fun Str :: "string \<Rightarrow> regex" where
  "Str [] = Eps"
| "Str (c # cs) = Cat (Lit c) (Str cs)"

definition NL :: char where
  "NL = CHR 0x0A"

definition is_space :: "char \<Rightarrow> bool" where
  \<comment> \<open>Go's \<^verbatim>\<open>\s\<close>: tab, newline, form feed, carriage return, space.\<close>
  "is_space c = (c = CHR 0x09 \<or> c = CHR 0x0A \<or> c = CHR 0x0C \<or> c = CHR 0x0D \<or> c = CHR 0x20)"

definition is_digit :: "char \<Rightarrow> bool" where
  \<comment> \<open>Go's \<^verbatim>\<open>\d\<close>: the ASCII digits.\<close>
  "is_digit c = (c \<in> set ''0123456789'')"

text \<open>
  A matching state: the byte before the current position (\<open>None\<close> at the start of the
  text), the text from the current position on, and the text of each capture group
  (empty for a group that has not taken part, as \<^verbatim>\<open>FindAllStringSubmatch\<close> reports it).
\<close>

record mstate =
  prev :: "char option"
  rest :: string
  caps :: "nat \<Rightarrow> string"

definition step_char :: "(char \<Rightarrow> bool) \<Rightarrow> mstate \<Rightarrow> mstate list" where
  "step_char p s =
     (case rest s of
        [] \<Rightarrow> []
      | c # cs \<Rightarrow> if p c then [s\<lparr>prev := Some c, rest := cs\<rparr>] else [])"

text \<open>
  An iteration of a star that consumes nothing is not taken again. No starred expression
  of this program can match the empty string, so the guard never cuts a match here; it is
  what makes the search total.
\<close>

function run :: "regex \<Rightarrow> mstate \<Rightarrow> mstate list" where
  "run Eps s = [s]"
| "run (Lit c) s = step_char (\<lambda>x. x = c) s"
| "run AnyChar s = step_char (\<lambda>x. True) s"
| "run AnyCharNotNL s = step_char (\<lambda>x. x \<noteq> NL) s"
| "run Space s = step_char is_space s"
| "run Digit s = step_char is_digit s"
| "run BeginLine s = (if prev s = None \<or> prev s = Some NL then [s] else [])"
| "run EndLine s = (case rest s of [] \<Rightarrow> [s] | c # cs \<Rightarrow> if c = NL then [s] else [])"
| "run (Cat a b) s = concat (map (run b) (run a s))"
| "run (Alt a b) s = run a s @ run b s"
| "run (Quest a) s = run a s @ [s]"
| "run (Star a) s =
     concat (map (\<lambda>t. if length (rest t) < length (rest s) then run (Star a) t else [])
                 (run a s)) @ [s]"
| "run (LazyStar a) s =
     s # concat (map (\<lambda>t. if length (rest t) < length (rest s) then run (LazyStar a) t else [])
                     (run a s))"
| "run (Capture n a) s =
     map (\<lambda>t. t\<lparr>caps := (caps t)(n := take (length (rest s) - length (rest t)) (rest s))\<rparr>)
         (run a s)"
  by pat_completeness auto
termination
  by (relation "measures [\<lambda>(r, s). size r, \<lambda>(r, s). length (rest s)]") auto

text \<open>
  The unanchored search: the first position, from the current one on, at which the
  pattern matches, with the preferred match there. The result is the text from the start
  of the match on, and the state at its end.
\<close>

fun search :: "regex \<Rightarrow> char option \<Rightarrow> string \<Rightarrow> (string \<times> mstate) option" where
  "search r p [] =
     (case run r \<lparr>prev = p, rest = [], caps = (\<lambda>n. [])\<rparr> of
        [] \<Rightarrow> None
      | e # es \<Rightarrow> Some ([], e))"
| "search r p (c # cs) =
     (case run r \<lparr>prev = p, rest = c # cs, caps = (\<lambda>n. [])\<rparr> of
        [] \<Rightarrow> search r (Some c) cs
      | e # es \<Rightarrow> Some (c # cs, e))"

declare run.simps(12) [simp del] run.simps(13) [simp del]

lemma step_char_rest: "t \<in> set (step_char p s) \<Longrightarrow> \<exists>c. rest s = c # rest t"
  by (cases "rest s") (auto simp: step_char_def split: if_splits)

lemma run_rest: "t \<in> set (run r s) \<Longrightarrow> \<exists>u. rest s = u @ rest t"
proof (induction r s arbitrary: t rule: run.induct)
  case (1 s)
  then show ?case by simp
next
  case (2 c s)
  from step_char_rest [OF "2.prems" [simplified]] show ?case by (metis append_Cons append_Nil)
next
  case (3 s)
  from step_char_rest [OF "3.prems" [simplified]] show ?case by (metis append_Cons append_Nil)
next
  case (4 s)
  from step_char_rest [OF "4.prems" [simplified]] show ?case by (metis append_Cons append_Nil)
next
  case (5 s)
  from step_char_rest [OF "5.prems" [simplified]] show ?case by (metis append_Cons append_Nil)
next
  case (6 s)
  from step_char_rest [OF "6.prems" [simplified]] show ?case by (metis append_Cons append_Nil)
next
  case (7 s)
  then show ?case by (simp split: if_splits)
next
  case (8 s)
  then show ?case by (simp split: list.splits if_splits)
next
  case (9 a b s)
  from "9.prems" obtain m where m: "m \<in> set (run a s)" and t: "t \<in> set (run b m)"
    by auto
  from "9.IH"(1) [OF m] obtain u where "rest s = u @ rest m" by blast
  moreover from "9.IH"(2) [OF m t] obtain v where "rest m = v @ rest t" by blast
  ultimately have "rest s = (u @ v) @ rest t" by simp
  then show ?case by blast
next
  case (10 a b s)
  from "10.prems" have "t \<in> set (run a s) \<or> t \<in> set (run b s)" by simp
  with "10.IH" show ?case by blast
next
  case (11 a s)
  from "11.prems" have "t \<in> set (run a s) \<or> t = s" by auto
  with "11.IH" show ?case by auto
next
  case (12 a s)
  show ?case
  proof (cases "t = s")
    case True
    then show ?thesis by simp
  next
    case False
    with "12.prems" obtain m where m: "m \<in> set (run a s)"
      and lt: "length (rest m) < length (rest s)" and t: "t \<in> set (run (Star a) m)"
      by (subst (asm) run.simps(12)) (auto split: if_splits)
    from "12.IH"(1) [OF m] obtain u where "rest s = u @ rest m" by blast
    moreover from "12.IH"(2) [OF m lt t] obtain v where "rest m = v @ rest t" by blast
    ultimately have "rest s = (u @ v) @ rest t" by simp
    then show ?thesis by blast
  qed
next
  case (13 a s)
  show ?case
  proof (cases "t = s")
    case True
    then show ?thesis by simp
  next
    case False
    with "13.prems" obtain m where m: "m \<in> set (run a s)"
      and lt: "length (rest m) < length (rest s)" and t: "t \<in> set (run (LazyStar a) m)"
      by (subst (asm) run.simps(13)) (auto split: if_splits)
    from "13.IH"(1) [OF m] obtain u where "rest s = u @ rest m" by blast
    moreover from "13.IH"(2) [OF m lt t] obtain v where "rest m = v @ rest t" by blast
    ultimately have "rest s = (u @ v) @ rest t" by simp
    then show ?thesis by blast
  qed
next
  case (14 n a s)
  from "14.prems" obtain m where m: "m \<in> set (run a s)" and t: "rest t = rest m"
    by auto
  from "14.IH" [OF m] t show ?case by simp
qed

lemma search_rest:
  "search r p rs = Some (a, e) \<Longrightarrow> (\<exists>u. rs = u @ a) \<and> (\<exists>v. a = v @ rest e)"
proof (induction rs arbitrary: p)
  case Nil
  show ?case
  proof (cases "run r \<lparr>prev = p, rest = [], caps = (\<lambda>n. [])\<rparr>")
    case Nil
    with Nil.prems show ?thesis by simp
  next
    case (Cons e' es)
    with Nil.prems have a: "a = []" and e: "e = e'" by simp_all
    from Cons e have "e \<in> set (run r \<lparr>prev = p, rest = [], caps = (\<lambda>n. [])\<rparr>)" by simp
    from run_rest [OF this] a show ?thesis by simp
  qed
next
  case (Cons c cs)
  show ?case
  proof (cases "run r \<lparr>prev = p, rest = c # cs, caps = (\<lambda>n. [])\<rparr>")
    case Nil
    with Cons.prems have "search r (Some c) cs = Some (a, e)" by simp
    from Cons.IH [OF this] obtain u where u: "cs = u @ a" and v: "\<exists>v. a = v @ rest e" by blast
    from u have "c # cs = (c # u) @ a" by simp
    then have "\<exists>u. c # cs = u @ a" by blast
    with v show ?thesis by simp
  next
    case (Cons e' es)
    with Cons.prems have a: "a = c # cs" and e: "e = e'" by simp_all
    from Cons e have "e \<in> set (run r \<lparr>prev = p, rest = c # cs, caps = (\<lambda>n. [])\<rparr>)" by simp
    from run_rest [OF this] a show ?thesis by simp
  qed
qed

lemma search_length:
  assumes "search r p rs = Some (a, e)"
  shows "length (rest e) \<le> length a \<and> length a \<le> length rs"
proof -
  from search_rest [OF assms] obtain u v where "rs = u @ a" and "a = v @ rest e" by blast
  then have "length rs = length u + length a" and "length a = length v + length (rest e)"
    by (metis length_append)+
  then show ?thesis by simp
qed

text \<open>
  The loop of \<^verbatim>\<open>Regexp.allMatches\<close>, which \<^verbatim>\<open>FindAllStringIndex\<close> and
  \<^verbatim>\<open>FindAllStringSubmatch\<close> share: search from \<open>pos\<close>; an empty match right after the
  previous match is dropped; after an empty match at \<open>pos\<close> the search moves on by one
  byte, otherwise it continues at the end of the match. \<open>pe\<close> is \<^verbatim>\<open>prevMatchEnd\<close>, kept
  as the length of the text that was left there (\<open>None\<close> for -1).
\<close>

function find_all :: "regex \<Rightarrow> char option \<Rightarrow> string \<Rightarrow> nat option \<Rightarrow> (string \<times> mstate) list" where
  "find_all r p rs pe =
     (case search r p rs of
        None \<Rightarrow> []
      | Some (a, e) \<Rightarrow>
          if length (rest e) = length rs
          then (if Some (length a) = pe then [] else [(a, e)]) @
               (case rs of
                  [] \<Rightarrow> []
                | c # cs \<Rightarrow> find_all r (Some c) cs (Some (length (rest e))))
          else (a, e) # find_all r (prev e) (rest e) (Some (length (rest e))))"
  by pat_completeness auto
termination
proof (relation "measure (\<lambda>(r, p, rs, pe). length rs)")
  show "wf (measure (\<lambda>(r, p, rs, pe). length rs))" by simp
next
  fix r :: regex and p :: "char option" and rs cs :: string and pe :: "nat option"
    and e :: mstate and c :: char
  assume "rs = c # cs"
  then show "((r, Some c, cs, Some (length (rest e))), (r, p, rs, pe))
      \<in> measure (\<lambda>(r, p, rs, pe). length rs)" by simp
next
  fix r :: regex and p :: "char option" and rs a :: string and pe :: "nat option"
    and e :: mstate and x :: "string \<times> mstate"
  assume "search r p rs = Some x" and "(a, e) = x" and "length (rest e) \<noteq> length rs"
  then show "((r, prev e, rest e, Some (length (rest e))), (r, p, rs, pe))
      \<in> measure (\<lambda>(r, p, rs, pe). length rs)"
    using search_length [of r p rs a e] by auto
qed

fun num_subexp :: "regex \<Rightarrow> nat" where
  "num_subexp (Capture n a) = max n (num_subexp a)"
| "num_subexp (Cat a b) = max (num_subexp a) (num_subexp b)"
| "num_subexp (Alt a b) = max (num_subexp a) (num_subexp b)"
| "num_subexp (Quest a) = num_subexp a"
| "num_subexp (Star a) = num_subexp a"
| "num_subexp (LazyStar a) = num_subexp a"
| "num_subexp r = 0"

definition FindAllStringIndex :: "regex \<Rightarrow> string \<Rightarrow> (nat \<times> nat) list" where
  \<comment> \<open>every match as its start and end offsets; no match is the empty list (Go's nil)\<close>
  "FindAllStringIndex re s =
     map (\<lambda>(a, e). (length s - length a, length s - length (rest e))) (find_all re None s None)"

definition FindAllStringSubmatch :: "regex \<Rightarrow> string \<Rightarrow> string list list" where
  \<comment> \<open>every match as the matched text followed by the text of each capture group\<close>
  "FindAllStringSubmatch re s =
     map (\<lambda>(a, e). take (length a - length (rest e)) a # map (caps e) [1 ..< Suc (num_subexp re)])
         (find_all re None s None)"

section \<open>The reference extractor\<close>

fun Seq :: "regex list \<Rightarrow> regex" where
  "Seq [] = Eps"
| "Seq [r] = r"
| "Seq (r # rs) = Cat r (Seq rs)"

definition quote_marker :: regex where
  \<comment> \<open>\<^verbatim>\<open>(?:>|\\u003e)\<close>: the sign itself, or a backslash followed by the five characters u003e\<close>
  "quote_marker = Alt (Lit CHR ''>'') (Str (CHR 0x5C # ''u003e''))"

definition reBlock :: regex where
  \<comment> \<open>\<^verbatim>\<open>(?ms)((?:>|\\u003e)\s*\[\d+\]\.\s*\[.*?\]\(.*?\)\s*\n?)+$\<close>\<close>
  "reBlock =
     Seq [Plus (Capture 1 (Seq [quote_marker, Star Space,
                                Lit CHR ''['', Plus Digit, Lit CHR '']'', Lit CHR ''.'', Star Space,
                                Lit CHR ''['', LazyStar AnyChar, Lit CHR '']'',
                                Lit CHR ''('', LazyStar AnyChar, Lit CHR '')'',
                                Star Space, Quest (Lit NL)])),
          EndLine]"

definition reLine :: regex where
  \<comment> \<open>\<^verbatim>\<open>(?m)^(?:>|\\u003e)\s*\[(\d+)\]\.\s*\[(.*?)\]\((.*?)\)\<close>\<close>
  "reLine =
     Seq [BeginLine, quote_marker, Star Space,
          Lit CHR ''['', Capture 1 (Plus Digit), Lit CHR '']'', Lit CHR ''.'', Star Space,
          Lit CHR ''['', Capture 2 (LazyStar AnyCharNotNL), Lit CHR '']'',
          Lit CHR ''('', Capture 3 (LazyStar AnyCharNotNL), Lit CHR '')'']"

text \<open>
  \<^verbatim>\<open>domain.ConversationReference\<close>, with the fields the extractor sets. The number
  between the first brackets is captured by the line pattern (group 1) and is not copied
  into the reference.
\<close>

record ConversationReference =
  Name :: string
  URL :: string
  ConversationID :: string
  AppID :: string

definition lastIndex :: "string \<Rightarrow> int" where
  "lastIndex text =
     (let allMatches = FindAllStringIndex reBlock text
      in if length allMatches > 0 then int (fst (last allMatches)) else - 1)"

definition add_ref :: "string \<Rightarrow> string \<Rightarrow> ConversationReference list \<Rightarrow> string list \<Rightarrow> ConversationReference list" where
  \<comment> \<open>the body of the loop over \<^verbatim>\<open>matches\<close>\<close>
  "add_ref conversationID appID refs m =
     (if length m = 4
      then refs @ [\<lparr>Name = m ! 2, URL = m ! 3, ConversationID = conversationID, AppID = appID\<rparr>]
      else refs)"

definition collect_refs :: "string \<Rightarrow> string \<Rightarrow> string list list \<Rightarrow> ConversationReference list" where
  "collect_refs conversationID appID matches = foldl (add_ref conversationID appID) [] matches"

definition extractReferencesBlock :: "string \<Rightarrow> string \<Rightarrow> string \<Rightarrow> ConversationReference list" where
  \<comment> \<open>Go's nil slice and its empty slice are both the empty list\<close>
  "extractReferencesBlock conversationID appID text =
     (if lastIndex text = - 1 then []
      else let block = drop (nat (lastIndex text)) text;
               matches = FindAllStringSubmatch reLine block
           in collect_refs conversationID appID matches)"

definition two_citation_lines :: string where
  "two_citation_lines = ''> [1]. [A](http://a)\<newline>> [2]. [B](http://b)''"

definition block_span :: "string \<Rightarrow> nat \<times> nat \<Rightarrow> string" where
  \<comment> \<open>the text of a match: \<^verbatim>\<open>text[start:end]\<close>\<close>
  "block_span text m = take (snd m - fst m) (drop (fst m) text)"

section \<open>The conversation use case and its collaborators\<close>

text \<open>
  The use case calls a persistence store, an IP database, a geo cache and a logger. Each
  collaborator is a parameter of the model: a function that gives the answer of one call.
  What the use case does to them is written to a trace, one event per call, in the order
  of the calls.
\<close>

datatype error = Err string

datatype log_level = LInfo | LWarn | LError

datatype log_field = FError error | FString string string

datatype event =
    Log log_level string "log_field list"
  | RepoCreateConversation string
  | RepoGetConversationList
  | RepoGetConversationDetail string
  | RepoGetConversationMessagesByID string
  | RepoGetConversationReferences string
  | IPRepoGetIPAddress string
  | GeoCacheSetGeo string string
  | StatRepoRemoveOldData

text \<open>
  \<^verbatim>\<open>domain.IPAddress\<close>, with the fields the use case reads. A lookup that succeeds is taken
  to return a record (\<^verbatim>\<open>CreateConversation\<close> reads its fields without a nil check).
\<close>

record IPAddress =
  Country :: string
  Province :: string
  City :: string

record Conversation =
  conv_ID :: string
  conv_KBID :: string
  conv_RemoteIP :: string

record ConversationListItem =
  item_RemoteIP :: string
  item_IPAddress :: "IPAddress option"

record ('m, 'r) ConversationDetailResp =
  detail_RemoteIP :: string
  detail_IPAddress :: "IPAddress option"
  detail_Messages :: 'm
  detail_References :: 'r

text \<open>
  Modelled from the spec: \<^verbatim>\<open>domain.NewPaginatedResult\<close> is not among the sources; the
  list call "returns total count alongside the page", so the result pairs the two.
\<close>

record 'a PaginatedResult =
  page_data :: 'a
  page_total :: nat

definition NewPaginatedResult :: "'a \<Rightarrow> nat \<Rightarrow> 'a PaginatedResult" where
  "NewPaginatedResult d t = \<lparr>page_data = d, page_total = t\<rparr>"

definition CreateConversation ::
  "('a Conversation_scheme \<Rightarrow> error option) \<Rightarrow> (string \<Rightarrow> error + IPAddress) \<Rightarrow>
   (string \<Rightarrow> string \<Rightarrow> error option) \<Rightarrow> 'a Conversation_scheme \<Rightarrow> event list \<times> error option" where
  "CreateConversation repoCreateConversation getIPAddress setGeo conversation =
     (case repoCreateConversation conversation of
        Some err \<Rightarrow> ([RepoCreateConversation (conv_ID conversation)], Some err)
      | None \<Rightarrow>
          (let remoteIP = conv_RemoteIP conversation in
           case getIPAddress remoteIP of
             Inl err \<Rightarrow>
               ([RepoCreateConversation (conv_ID conversation),
                 IPRepoGetIPAddress remoteIP,
                 Log LWarn ''get ip address failed''
                   [FError err, FString ''ip'' remoteIP,
                    FString ''conversation_id'' (conv_ID conversation)]], None)
           | Inr ipAddress \<Rightarrow>
               (let location = Country ipAddress @ ''|'' @ Province ipAddress @ ''|'' @ City ipAddress in
                case setGeo (conv_KBID conversation) location of
                  Some err \<Rightarrow>
                    ([RepoCreateConversation (conv_ID conversation),
                      IPRepoGetIPAddress remoteIP,
                      GeoCacheSetGeo (conv_KBID conversation) location,
                      Log LWarn ''set geo cache failed''
                        [FError err, FString ''conversation_id'' (conv_ID conversation),
                         FString ''ip'' remoteIP]], None)
                | None \<Rightarrow>
                    ([RepoCreateConversation (conv_ID conversation),
                      IPRepoGetIPAddress remoteIP,
                      GeoCacheSetGeo (conv_KBID conversation) location], None))))"

text \<open>
  The callback of \<^verbatim>\<open>lo.Map\<close> in \<^verbatim>\<open>GetConversationList\<close>: it works on one row, with
  the request's \<^verbatim>\<open>ipAddressMap\<close> and the trace, and returns the row as it leaves it. The
  rows are pointers in the source; the callback writes to a row nothing but the location of
  the row's own address, so a row is a value here.
\<close>

definition enrich ::
  "(string \<Rightarrow> error + IPAddress) \<Rightarrow> 'a ConversationListItem_scheme \<Rightarrow>
   (string \<rightharpoonup> IPAddress) \<times> event list \<Rightarrow>
   'a ConversationListItem_scheme \<times> (string \<rightharpoonup> IPAddress) \<times> event list" where
  "enrich getIPAddress conversation st =
     (case st of (ipAddressMap, tr) \<Rightarrow>
        (case ipAddressMap (item_RemoteIP conversation) of
           None \<Rightarrow>
             (case getIPAddress (item_RemoteIP conversation) of
                Inl err \<Rightarrow>
                  (conversation, ipAddressMap,
                   tr @ [IPRepoGetIPAddress (item_RemoteIP conversation),
                         Log LError ''get ip address failed''
                           [FError err, FString ''ip'' (item_RemoteIP conversation)]])
              | Inr ipAddress \<Rightarrow>
                  (conversation\<lparr>item_IPAddress := Some ipAddress\<rparr>,
                   ipAddressMap(item_RemoteIP conversation \<mapsto> ipAddress),
                   tr @ [IPRepoGetIPAddress (item_RemoteIP conversation)]))
         | Some ipAddress \<Rightarrow>
             (conversation\<lparr>item_IPAddress := Some ipAddress\<rparr>, ipAddressMap, tr)))"

fun enrich_all ::
  "(string \<Rightarrow> error + IPAddress) \<Rightarrow> 'a ConversationListItem_scheme list \<Rightarrow>
   (string \<rightharpoonup> IPAddress) \<times> event list \<Rightarrow>
   'a ConversationListItem_scheme list \<times> (string \<rightharpoonup> IPAddress) \<times> event list" where
  "enrich_all getIPAddress [] st = ([], st)"
| "enrich_all getIPAddress (c # cs) st =
     (case enrich getIPAddress c st of
        (c', st') \<Rightarrow>
          (case enrich_all getIPAddress cs st' of
             (cs', st'') \<Rightarrow> (c' # cs', st'')))"

definition GetConversationList ::
  "('q \<Rightarrow> error + 'a ConversationListItem_scheme list \<times> nat) \<Rightarrow>
   (string \<Rightarrow> error + IPAddress) \<Rightarrow> 'q \<Rightarrow>
   event list \<times> (error + 'a ConversationListItem_scheme list PaginatedResult)" where
  "GetConversationList repoGetConversationList getIPAddress request =
     (case repoGetConversationList request of
        Inl err \<Rightarrow> ([RepoGetConversationList], Inl err)
      | Inr (conversations, total') \<Rightarrow>
          (case enrich_all getIPAddress conversations (Map.empty, [RepoGetConversationList]) of
             (conversations', ipAddressMap, tr) \<Rightarrow>
               (tr, Inr (NewPaginatedResult conversations' total'))))"

definition GetConversationDetail ::
  "(string \<Rightarrow> error + ('m, 'r, 'a) ConversationDetailResp_scheme) \<Rightarrow>
   (string \<Rightarrow> error + IPAddress) \<Rightarrow> (string \<Rightarrow> error + 'm) \<Rightarrow> (string \<Rightarrow> error + 'r) \<Rightarrow>
   string \<Rightarrow> event list \<times> (error + ('m, 'r, 'a) ConversationDetailResp_scheme)" where
  "GetConversationDetail repoGetConversationDetail getIPAddress repoGetMessages repoGetReferences
       conversationID =
     (case repoGetConversationDetail conversationID of
        Inl err \<Rightarrow> ([RepoGetConversationDetail conversationID], Inl err)
      | Inr conversation \<Rightarrow>
          (let (conversation1, tr1) =
                 (case getIPAddress (detail_RemoteIP conversation) of
                    Inl err \<Rightarrow>
                      (conversation,
                       [RepoGetConversationDetail conversationID,
                        IPRepoGetIPAddress (detail_RemoteIP conversation),
                        Log LError ''get ip address failed''
                          [FError err, FString ''ip'' (detail_RemoteIP conversation)]])
                  | Inr ipAddress \<Rightarrow>
                      (conversation\<lparr>detail_IPAddress := Some ipAddress\<rparr>,
                       [RepoGetConversationDetail conversationID,
                        IPRepoGetIPAddress (detail_RemoteIP conversation)]))
           in case repoGetMessages conversationID of
                Inl err \<Rightarrow> (tr1 @ [RepoGetConversationMessagesByID conversationID], Inl err)
              | Inr messages \<Rightarrow>
                  (case repoGetReferences conversationID of
                     Inl err \<Rightarrow>
                       (tr1 @ [RepoGetConversationMessagesByID conversationID,
                               RepoGetConversationReferences conversationID], Inl err)
                   | Inr references \<Rightarrow>
                       (tr1 @ [RepoGetConversationMessagesByID conversationID,
                               RepoGetConversationReferences conversationID],
                        Inr (conversation1\<lparr>detail_Messages := messages,
                                           detail_References := references\<rparr>)))))"

section \<open>The nonce check\<close>

datatype nonce_result = NonceOk | NonceInvalid | NonceAlreadyUsed | NonceNotFound

record nonce_entry =
  nonce_value :: string
  nonce_used :: bool

text \<open>
  Modelled from the spec: \<^verbatim>\<open>ConversationRepository.ValidateConversationNonce\<close> is not
  among the sources. The spec gives its contract as
  \<open>validate(conversationID, nonce) -> Ok | Invalid | AlreadyUsed | NotFound\<close>, check and
  consume: "a successful validation marks the nonce unusable for future calls". A
  conversation holds one nonce, written once; the store maps a conversation to it.
\<close>

definition validateAndConsumeNonce ::
  "string \<Rightarrow> string \<Rightarrow> (string \<rightharpoonup> nonce_entry) \<Rightarrow> nonce_result \<times> (string \<rightharpoonup> nonce_entry)" where
  "validateAndConsumeNonce conversationID nonce store =
     (case store conversationID of
        None \<Rightarrow> (NonceNotFound, store)
      | Some en \<Rightarrow>
          if nonce_value en \<noteq> nonce then (NonceInvalid, store)
          else if nonce_used en then (NonceAlreadyUsed, store)
          else (NonceOk, store(conversationID \<mapsto> en\<lparr>nonce_used := True\<rparr>)))"

text \<open>The use case hands the call to the repository and returns its answer.\<close>

definition ValidateConversationNonce ::
  "(string \<Rightarrow> string \<Rightarrow> 's \<Rightarrow> 'r \<times> 's) \<Rightarrow> string \<Rightarrow> string \<Rightarrow> 's \<Rightarrow> 'r \<times> 's" where
  "ValidateConversationNonce repoValidateConversationNonce conversationID nonce store =
     repoValidateConversationNonce conversationID nonce store"

fun validate_all :: "(string \<times> string) list \<Rightarrow> (string \<rightharpoonup> nonce_entry) \<Rightarrow> (string \<rightharpoonup> nonce_entry)" where
  \<comment> \<open>the store after a sequence of further validations\<close>
  "validate_all [] store = store"
| "validate_all ((c, n) # ops) store =
     validate_all ops (snd (ValidateConversationNonce validateAndConsumeNonce c n store))"

section \<open>The retention sweep\<close>

record StatRecord =
  timestamp :: int

text \<open>
  Modelled from the spec: \<^verbatim>\<open>StatRepository.RemoveOldData\<close> is not among the sources. The
  spec has it "delete all stat records older than a fixed 24-hour threshold, relative to
  wall-clock time at tick start". Time is in seconds; \<open>now\<close> is the clock at the tick.
\<close>

definition RemoveOldData :: "int \<Rightarrow> 'a StatRecord_scheme list \<Rightarrow> error option \<times> 'a StatRecord_scheme list" where
  "RemoveOldData now db = (None, filter (\<lambda>r. \<not> timestamp r < now - 24 * 3600) db)"

text \<open>
  The handler of a tick, for any repository operation: one call, the error logged when
  there is one, and the closing message logged in either case.
\<close>

definition RemoveOldStatData :: "('db \<Rightarrow> error option \<times> 'db) \<Rightarrow> 'db \<Rightarrow> event list \<times> 'db" where
  "RemoveOldStatData removeOldData db =
     (case removeOldData db of
        (err, db') \<Rightarrow>
          ([Log LInfo ''remove old stat data start'' [], StatRepoRemoveOldData]
           @ (case err of
                Some e \<Rightarrow> [Log LError ''remove old stat data failed'' [FError e]]
              | None \<Rightarrow> [])
           @ [Log LInfo ''remove old stat data successful'' []],
           db'))"

section \<open>Auxiliary definitions\<close>

definition resolve_row :: "(string \<Rightarrow> error + IPAddress) \<Rightarrow> 'a ConversationListItem_scheme \<Rightarrow> 'a ConversationListItem_scheme" where
  \<comment> \<open>what a row becomes when its address is looked up in the database directly\<close>
  "resolve_row getIPAddress c =
     (case getIPAddress (item_RemoteIP c) of
        Inl err \<Rightarrow> c
      | Inr ipAddress \<Rightarrow> c\<lparr>item_IPAddress := Some ipAddress\<rparr>)"

text \<open>The request-scoped map only ever holds answers of the database.\<close>

definition cache_ok :: "(string \<Rightarrow> error + IPAddress) \<Rightarrow> (string \<rightharpoonup> IPAddress) \<Rightarrow> bool" where
  "cache_ok g m = (\<forall>ip a. m ip = Some a \<longrightarrow> g ip = Inr a)"


text \<open>
  The state \<open>t\<close> reached from \<open>s\<close>, had \<open>s\<close> started with \<open>p\<close> as its previous byte: only a
  state that has consumed nothing still shows the previous byte of the start.
\<close>

definition reprev :: "char option \<Rightarrow> mstate \<Rightarrow> mstate \<Rightarrow> mstate" where
  "reprev p s t = (if length (rest t) = length (rest s) then t\<lparr>prev := p\<rparr> else t)"

text \<open>
  What a pattern can consume, as a set of strings. The assertions \<^verbatim>\<open>^\<close> and \<^verbatim>\<open>$\<close> consume
  nothing; where they hold is not part of this set.
\<close>

inductive_set repeated :: "string set \<Rightarrow> string set" for A :: "string set" where
  repeated_Nil: "[] \<in> repeated A"
| repeated_App: "u \<in> A \<Longrightarrow> w \<in> repeated A \<Longrightarrow> u @ w \<in> repeated A"

fun lang :: "regex \<Rightarrow> string set" where
  "lang Eps = {[]}"
| "lang (Lit c) = {[c]}"
| "lang AnyChar = {[c] | c. True}"
| "lang AnyCharNotNL = {[c] | c. c \<noteq> NL}"
| "lang Space = {[c] | c. is_space c}"
| "lang Digit = {[c] | c. is_digit c}"
| "lang BeginLine = {[]}"
| "lang EndLine = {[]}"
| "lang (Cat a b) = {u @ v | u v. u \<in> lang a \<and> v \<in> lang b}"
| "lang (Alt a b) = lang a \<union> lang b"
| "lang (Quest a) = insert [] (lang a)"
| "lang (Star a) = repeated (lang a)"
| "lang (LazyStar a) = repeated (lang a)"
| "lang (Capture n a) = lang a"

definition block_at_line_end :: "string \<Rightarrow> bool" where
  \<comment> \<open>somewhere in the text stands a block, and what follows it is a newline or nothing\<close>
  "block_at_line_end text =
     (\<exists>u w v. text = u @ w @ v \<and> w \<in> lang reBlock \<and> (v = [] \<or> hd v = NL))"

fun must_have :: "char \<Rightarrow> regex \<Rightarrow> bool" where
  \<comment> \<open>every string the pattern can consume holds the byte, read off the pattern\<close>
  "must_have c (Lit d) = (c = d)"
| "must_have c (Cat a b) = (must_have c a \<or> must_have c b)"
| "must_have c (Alt a b) = (must_have c a \<and> must_have c b)"
| "must_have c (Capture n a) = must_have c a"
| "must_have c r = False"

fun no_anchor :: "regex \<Rightarrow> bool" where
  "no_anchor BeginLine = False"
| "no_anchor EndLine = False"
| "no_anchor (Cat a b) = (no_anchor a \<and> no_anchor b)"
| "no_anchor (Alt a b) = (no_anchor a \<and> no_anchor b)"
| "no_anchor (Quest a) = no_anchor a"
| "no_anchor (Star a) = no_anchor a"
| "no_anchor (LazyStar a) = no_anchor a"
| "no_anchor (Capture n a) = no_anchor a"
| "no_anchor r = True"

section \<open>Properties of the reference extractor\<close>

declare find_all.simps [simp del]

lemma add_ref_ids:
  assumes "\<forall>r \<in> set acc. ConversationID r = cid \<and> AppID r = aid"
  shows "\<forall>r \<in> set (add_ref cid aid acc m). ConversationID r = cid \<and> AppID r = aid"
  using assms by (simp add: add_ref_def)

lemma foldl_add_ref_ids:
  "\<forall>r \<in> set acc. ConversationID r = cid \<and> AppID r = aid \<Longrightarrow>
   \<forall>r \<in> set (foldl (add_ref cid aid) acc ms). ConversationID r = cid \<and> AppID r = aid"
proof (induction ms arbitrary: acc)
  case Nil
  then show ?case by simp
next
  case (Cons m ms)
  from Cons.IH [OF add_ref_ids [OF Cons.prems]] show ?case by simp
qed

lemma collect_refs_ids:
  "r \<in> set (collect_refs cid aid ms) \<Longrightarrow> ConversationID r = cid \<and> AppID r = aid"
  using foldl_add_ref_ids [of "[]" cid aid ms] by (simp add: collect_refs_def)

text \<open>
  C10. Every reference that \<open>extractReferencesBlock\<close> returns carries the conversation
  identifier and the application identifier the function was called with, whatever the
  text is.
\<close>

theorem extractReferencesBlock_owner:
  "\<forall>r \<in> set (extractReferencesBlock conversationID appID text).
     ConversationID r = conversationID \<and> AppID r = appID"
proof (cases "lastIndex text = - 1")
  case True
  then show ?thesis by (simp add: extractReferencesBlock_def)
next
  case False
  then show ?thesis
    by (simp add: extractReferencesBlock_def Let_def collect_refs_ids)
qed

theorem extractReferencesBlock_owner_witness:
  "extractReferencesBlock ''conv-7'' ''app-3'' ''see below\<newline>> [1]. [Guide](https://x.org/g)'' \<noteq> [] \<and>
   ConversationID (hd (extractReferencesBlock ''conv-7'' ''app-3'' ''see below\<newline>> [1]. [Guide](https://x.org/g)'')) = ''conv-7'' \<and>
   AppID (hd (extractReferencesBlock ''conv-7'' ''app-3'' ''see below\<newline>> [1]. [Guide](https://x.org/g)'')) = ''app-3''"
proof -
  let ?rs = "extractReferencesBlock ''conv-7'' ''app-3'' ''see below\<newline>> [1]. [Guide](https://x.org/g)''"
  have ne: "?rs \<noteq> []" by code_simp
  then have "hd ?rs \<in> set ?rs" by simp
  with extractReferencesBlock_owner [of "''conv-7''" "''app-3''" "''see below\<newline>> [1]. [Guide](https://x.org/g)''"]
  have "ConversationID (hd ?rs) = ''conv-7'' \<and> AppID (hd ?rs) = ''app-3''" by blast
  with ne show ?thesis by simp
qed

lemma reBlock_at_end: "run reBlock \<lparr>prev = p, rest = [], caps = k\<rparr> = []"
  by (simp add: reBlock_def Plus_def quote_marker_def step_char_def)

lemma search_two_citation_lines:
  "(case search reBlock q two_citation_lines of
      None \<Rightarrow> False
    | Some (a, e) \<Rightarrow> a = two_citation_lines \<and> rest e = [])"
  by code_simp


lemma matches_two_citation_lines:
  "FindAllStringSubmatch reLine two_citation_lines =
     [[''> [1]. [A](http://a)'', ''1'', ''A'', ''http://a''],
      [''> [2]. [B](http://b)'', ''2'', ''B'', ''http://b'']]"
  by code_simp

lemma run_length_le: "t \<in> set (run r s) \<Longrightarrow> length (rest t) \<le> length (rest s)"
proof -
  assume "t \<in> set (run r s)"
  from run_rest [OF this] obtain u where "rest s = u @ rest t" by blast
  then have "length (rest s) = length u + length (rest t)" by (metis length_append)
  then show ?thesis by simp
qed

lemma run_Cat_mid:
  assumes "t \<in> set (run (Cat a b) s)"
  shows "\<exists>m. m \<in> set (run a s) \<and> t \<in> set (run b m)"
  using assms by auto

lemma run_Lit_consumes:
  assumes "t \<in> set (run (Lit c) s)"
  shows "length (rest t) < length (rest s)"
proof -
  from assms have "t \<in> set (step_char (\<lambda>x. x = c) s)" by simp
  from step_char_rest [OF this] obtain d where "rest s = d # rest t" by blast
  then have "length (rest s) = Suc (length (rest t))" by (metis length_Cons)
  then show ?thesis by simp
qed

lemma run_Cat_consumes:
  assumes a: "\<And>m. m \<in> set (run a s) \<Longrightarrow> length (rest m) < length (rest s)"
    and t: "t \<in> set (run (Cat a b) s)"
  shows "length (rest t) < length (rest s)"
proof -
  from run_Cat_mid [OF t] obtain m where m: "m \<in> set (run a s)" and tm: "t \<in> set (run b m)"
    by blast
  from a [OF m] run_length_le [OF tm] show ?thesis by simp
qed

lemma run_quote_marker_consumes:
  assumes "t \<in> set (run quote_marker s)"
  shows "length (rest t) < length (rest s)"
proof -
  obtain x where qm: "quote_marker = Alt (Lit CHR ''>'') (Cat (Lit (CHR 0x5C)) x)"
    by (simp add: quote_marker_def)
  from assms [unfolded qm] have "t \<in> set (run (Lit CHR ''>'') s) \<or> t \<in> set (run (Cat (Lit (CHR 0x5C)) x) s)"
    by (simp del: run.simps(2) run.simps(9))
  then show ?thesis
  proof
    assume "t \<in> set (run (Lit CHR ''>'') s)"
    then show ?thesis by (rule run_Lit_consumes)
  next
    assume "t \<in> set (run (Cat (Lit (CHR 0x5C)) x) s)"
    then show ?thesis by (rule run_Cat_consumes [rotated]) (rule run_Lit_consumes)
  qed
qed

lemma run_Capture_rest:
  assumes "t \<in> set (run (Capture n a) s)"
  shows "\<exists>m. m \<in> set (run a s) \<and> rest t = rest m"
proof -
  from assms obtain m where "m \<in> set (run a s)"
    and "t = m\<lparr>caps := (caps m)(n := take (length (rest s) - length (rest m)) (rest s))\<rparr>"
    by auto
  then have "m \<in> set (run a s) \<and> rest t = rest m" by simp
  then show ?thesis by blast
qed

lemma run_reBlock_consumes:
  assumes "t \<in> set (run reBlock s)"
  shows "length (rest t) < length (rest s)"
proof -
  obtain body where rb: "reBlock = Cat (Cat (Capture 1 (Cat quote_marker body)) (Star (Capture 1 (Cat quote_marker body)))) EndLine"
    by (simp add: reBlock_def Plus_def)
  have cap: "length (rest m) < length (rest s)" if "m \<in> set (run (Capture 1 (Cat quote_marker body)) s)" for m
  proof -
    from run_Capture_rest [OF that] obtain k where k: "k \<in> set (run (Cat quote_marker body) s)"
      and eq: "rest m = rest k" by blast
    from k have "length (rest k) < length (rest s)"
      by (rule run_Cat_consumes [rotated]) (rule run_quote_marker_consumes)
    with eq show ?thesis by simp
  qed
  have "length (rest m) < length (rest s)"
    if "m \<in> set (run (Cat (Capture 1 (Cat quote_marker body)) (Star (Capture 1 (Cat quote_marker body)))) s)" for m
    using that by (rule run_Cat_consumes [rotated]) (rule cap)
  with assms [unfolded rb] show ?thesis
    by (rule run_Cat_consumes [rotated])
qed


lemma search_in_run:
  "search r p rs = Some (a, e) \<Longrightarrow> \<exists>q. e \<in> set (run r \<lparr>prev = q, rest = a, caps = (\<lambda>n. [])\<rparr>)"
proof (induction rs arbitrary: p)
  case Nil
  show ?case
  proof (cases "run r \<lparr>prev = p, rest = [], caps = (\<lambda>n. [])\<rparr>")
    case Nil
    with Nil.prems show ?thesis by simp
  next
    case (Cons e' es)
    with Nil.prems have "a = []" and "e = e'" by simp_all
    with Cons have "e \<in> set (run r \<lparr>prev = p, rest = a, caps = (\<lambda>n. [])\<rparr>)" by simp
    then show ?thesis by blast
  qed
next
  case (Cons c cs)
  show ?case
  proof (cases "run r \<lparr>prev = p, rest = c # cs, caps = (\<lambda>n. [])\<rparr>")
    case Nil
    with Cons.prems have "search r (Some c) cs = Some (a, e)" by simp
    then show ?thesis by (rule Cons.IH)
  next
    case (Cons e' es)
    with Cons.prems have "a = c # cs" and "e = e'" by simp_all
    with Cons have "e \<in> set (run r \<lparr>prev = p, rest = a, caps = (\<lambda>n. [])\<rparr>)" by simp
    then show ?thesis by blast
  qed
qed





lemma reprev_rest [simp]: "rest (reprev p s t) = rest t"
  by (simp add: reprev_def)
















lemma search_app:
  "search r p (v @ rs) = Some (a, e) \<Longrightarrow>
   length rs < length a \<or> search r (if v = [] then p else Some (last v)) rs = Some (a, e)"
proof (induction v arbitrary: p)
  case Nil
  then show ?case by simp
next
  case (Cons c cs)
  show ?case
  proof (cases "run r \<lparr>prev = p, rest = c # cs @ rs, caps = (\<lambda>n. [])\<rparr>")
    case Nil
    with Cons.prems have "search r (Some c) (cs @ rs) = Some (a, e)" by simp
    from Cons.IH [OF this] show ?thesis by (cases "cs = []") simp_all
  next
    case (Cons e' es)
    with Cons.prems have "a = c # cs @ rs" by simp
    then show ?thesis by simp
  qed
qed

lemma search_app_None:
  "search r p (v @ rs) = None \<Longrightarrow> search r (if v = [] then p else Some (last v)) rs = None"
proof (induction v arbitrary: p)
  case Nil
  then show ?case by simp
next
  case (Cons c cs)
  show ?case
  proof (cases "run r \<lparr>prev = p, rest = c # cs @ rs, caps = (\<lambda>n. [])\<rparr>")
    case Nil
    with Cons.prems have "search r (Some c) (cs @ rs) = None" by simp
    from Cons.IH [OF this] show ?thesis by (cases "cs = []") simp_all
  next
    case (Cons e' es)
    with Cons.prems show ?thesis by simp
  qed
qed

lemma find_all_ends:
  assumes "\<And>s t. t \<in> set (run r s) \<Longrightarrow> length (rest t) < length (rest s)"
  shows "\<forall>x \<in> set (find_all r p rs pe).
           length (rest (snd x)) < length (fst x) \<and> length (fst x) \<le> length rs"
  using assms
proof (induction r p rs pe rule: find_all.induct)
  case (1 r p rs pe)
  show ?case
  proof (cases "search r p rs")
    case None
    then have "find_all r p rs pe = []" by (subst find_all.simps) simp
    then show ?thesis by simp
  next
    case (Some x)
    obtain a e where x: "x = (a, e)" by (cases x)
    with Some have s: "search r p rs = Some (a, e)" by simp
    from search_in_run [OF s] obtain q
      where "e \<in> set (run r \<lparr>prev = q, rest = a, caps = (\<lambda>n. [])\<rparr>)" by blast
    from "1.prems" [OF this] have lt: "length (rest e) < length a" by simp
    from search_length [OF s] have le: "length a \<le> length rs" by simp
    from lt le have neq: "length (rest e) \<noteq> length rs" by simp
    have fa: "find_all r p rs pe = (a, e) # find_all r (prev e) (rest e) (Some (length (rest e)))"
      by (subst find_all.simps) (simp add: s neq)
    from "1.IH"(2) [OF Some x [symmetric] neq "1.prems"]
    have "\<forall>x \<in> set (find_all r (prev e) (rest e) (Some (length (rest e)))).
            length (rest (snd x)) < length (fst x) \<and> length (fst x) \<le> length (rest e)"
      by simp
    with lt le show ?thesis unfolding fa by fastforce
  qed
qed

lemma suffix_keeps_tail:
  assumes "v @ l = k @ z" and "length l \<le> length z"
  shows "\<exists>v'. z = v' @ l"
proof -
  from assms(1) consider us where "v = k @ us" "us @ l = z" | us where "v @ us = k" "l = us @ z"
    by (auto simp: append_eq_append_conv2)
  then show ?thesis
  proof cases
    case 1
    then show ?thesis by blast
  next
    case 2
    with assms(2) have "us = []" by auto
    with 2 have "z = [] @ l" by simp
    then show ?thesis by blast
  qed
qed

lemma search_two_lines_found:
  "\<exists>e. search reBlock q two_citation_lines = Some (two_citation_lines, e) \<and> rest e = []"
  using search_two_citation_lines [of q]
  by (cases "search reBlock q two_citation_lines") auto


lemma find_all_ends_with_two_lines:
  assumes "\<forall>x \<in> set (find_all reBlock p (v @ two_citation_lines) pe).
             length two_citation_lines < length (fst x) \<longrightarrow>
             length two_citation_lines \<le> length (rest (snd x))"
  shows "\<exists>xs e. find_all reBlock p (v @ two_citation_lines) pe = xs @ [(two_citation_lines, e)]"
  using assms
proof (induction "length v" arbitrary: v p pe rule: less_induct)
  case less
  let ?L = "two_citation_lines"
  let ?q = "if v = [] then p else Some (last v)"
  show ?case
  proof (cases "search reBlock p (v @ ?L)")
    case None
    from search_app_None [OF None] have "search reBlock ?q ?L = None" .
    with search_two_lines_found [of ?q] show ?thesis by simp
  next
    case (Some x)
    obtain a e where x: "x = (a, e)" by (cases x)
    with Some have s: "search reBlock p (v @ ?L) = Some (a, e)" by simp
    from search_in_run [OF s] obtain q'
      where "e \<in> set (run reBlock \<lparr>prev = q', rest = a, caps = (\<lambda>n. [])\<rparr>)" by blast
    from run_reBlock_consumes [OF this] have lt: "length (rest e) < length a" by simp
    from search_length [OF s] have le: "length a \<le> length (v @ ?L)" by simp
    from lt le have neq: "length (rest e) \<noteq> length v + length ?L" by simp
    let ?tl = "find_all reBlock (prev e) (rest e) (Some (length (rest e)))"
    have fa: "find_all reBlock p (v @ ?L) pe = (a, e) # ?tl"
      by (subst find_all.simps) (simp add: s neq)
    from search_app [OF s] show ?thesis
    proof
      assume long: "length ?L < length a"
      from less.prems fa long have keep: "length ?L \<le> length (rest e)" by simp
      from search_rest [OF s] obtain u w where "v @ ?L = u @ a" and "a = w @ rest e" by blast
      then have "v @ ?L = (u @ w) @ rest e" by simp
      from suffix_keeps_tail [OF this keep] obtain v' where v': "rest e = v' @ ?L" by blast
      with lt le have shorter: "length v' < length v" by simp
      from less.prems fa
      have "\<forall>x \<in> set ?tl. length ?L < length (fst x) \<longrightarrow> length ?L \<le> length (rest (snd x))"
        by simp
      with v' have "\<forall>x \<in> set (find_all reBlock (prev e) (v' @ ?L) (Some (length (rest e)))).
          length ?L < length (fst x) \<longrightarrow> length ?L \<le> length (rest (snd x))" by simp
      from less.hyps [OF shorter this] obtain xs e'
        where "find_all reBlock (prev e) (v' @ ?L) (Some (length (rest e))) = xs @ [(?L, e')]"
        by blast
      with v' fa have "find_all reBlock p (v @ ?L) pe = ((a, e) # xs) @ [(?L, e')]" by simp
      then show ?thesis by blast
    next
      assume at: "search reBlock ?q ?L = Some (a, e)"
      with search_two_lines_found [of ?q] have a: "a = ?L" and e: "rest e = []" by simp_all
      have "?tl = []" by (subst find_all.simps) (simp add: e reBlock_at_end)
      with fa a have "find_all reBlock p (v @ ?L) pe = [] @ [(?L, e)]" by simp
      then show ?thesis by blast
    qed
  qed
qed

lemma lastIndex_two_lines:
  assumes "\<forall>m \<in> set (FindAllStringIndex reBlock (pre @ two_citation_lines)).
             fst m < length pre \<longrightarrow> snd m \<le> length pre"
  shows "lastIndex (pre @ two_citation_lines) = int (length pre)"
proof -
  let ?L = "two_citation_lines"
  let ?fa = "find_all reBlock None (pre @ ?L) None"
  have "\<forall>x \<in> set ?fa. length ?L < length (fst x) \<longrightarrow> length ?L \<le> length (rest (snd x))"
  proof (intro ballI impI)
    fix x
    assume x: "x \<in> set ?fa" and long: "length ?L < length (fst x)"
    from find_all_ends [of reBlock None "pre @ ?L" None, OF run_reBlock_consumes] x
    have b: "length (rest (snd x)) < length (fst x)" "length (fst x) \<le> length (pre @ ?L)"
      by simp_all
    from x have "(length (pre @ ?L) - length (fst x), length (pre @ ?L) - length (rest (snd x)))
        \<in> set (FindAllStringIndex reBlock (pre @ ?L))"
      by (force simp: FindAllStringIndex_def case_prod_unfold)
    with assms have imp: "length (pre @ ?L) - length (fst x) < length pre \<longrightarrow>
        length (pre @ ?L) - length (rest (snd x)) \<le> length pre" by fastforce
    have n: "length (pre @ ?L) = length pre + length ?L" by simp
    from b long n have "length (pre @ ?L) - length (fst x) < length pre" by arith
    with imp have "length (pre @ ?L) - length (rest (snd x)) \<le> length pre" by (rule mp)
    with b n show "length ?L \<le> length (rest (snd x))" by arith
  qed
  from find_all_ends_with_two_lines [OF this] obtain xs e
    where "?fa = xs @ [(?L, e)]" by blast
  then have "FindAllStringIndex reBlock (pre @ ?L) \<noteq> []"
    and "fst (last (FindAllStringIndex reBlock (pre @ ?L))) = length pre"
    by (simp_all add: FindAllStringIndex_def)
  then show ?thesis by (simp add: lastIndex_def)
qed

text \<open>
  C1, as amended. For a text that ends in the two lines \<^verbatim>\<open>> [1]. [A](http://a)\<close> and
  \<^verbatim>\<open>> [2]. [B](http://b)\<close>, where every match of the block pattern that starts before
  the two lines also ends before them, \<open>extractReferencesBlock\<close> returns exactly two
  references, in that order, named A and B, with the URLs http://a and http://b. The line
  pattern captures the numbers 1 and 2; the references hold no number.
\<close>

theorem extractReferencesBlock_two_lines:
  assumes "\<forall>m \<in> set (FindAllStringIndex reBlock
                         (pre @ ''> [1]. [A](http://a)\<newline>> [2]. [B](http://b)'')).
             fst m < length pre \<longrightarrow> snd m \<le> length pre"
  shows "extractReferencesBlock conversationID appID
           (pre @ ''> [1]. [A](http://a)\<newline>> [2]. [B](http://b)'') =
           [\<lparr>Name = ''A'', URL = ''http://a'', ConversationID = conversationID, AppID = appID\<rparr>,
            \<lparr>Name = ''B'', URL = ''http://b'', ConversationID = conversationID, AppID = appID\<rparr>]
         \<and> map (\<lambda>m. m ! 1) (FindAllStringSubmatch reLine
               (drop (nat (lastIndex (pre @ ''> [1]. [A](http://a)\<newline>> [2]. [B](http://b)'')))
                     (pre @ ''> [1]. [A](http://a)\<newline>> [2]. [B](http://b)''))) = [''1'', ''2'']"
proof -
  from assms have "\<forall>m \<in> set (FindAllStringIndex reBlock (pre @ two_citation_lines)).
             fst m < length pre \<longrightarrow> snd m \<le> length pre"
    by (simp add: two_citation_lines_def)
  then have li: "lastIndex (pre @ two_citation_lines) = int (length pre)"
    by (rule lastIndex_two_lines)
  have "extractReferencesBlock conversationID appID (pre @ two_citation_lines) =
          collect_refs conversationID appID (FindAllStringSubmatch reLine two_citation_lines)"
    by (simp add: extractReferencesBlock_def li)
  then have 1: "extractReferencesBlock conversationID appID (pre @ two_citation_lines) =
           [\<lparr>Name = ''A'', URL = ''http://a'', ConversationID = conversationID, AppID = appID\<rparr>,
            \<lparr>Name = ''B'', URL = ''http://b'', ConversationID = conversationID, AppID = appID\<rparr>]"
    by (simp add: matches_two_citation_lines collect_refs_def add_ref_def)
  have 2: "map (\<lambda>m. m ! 1) (FindAllStringSubmatch reLine
             (drop (nat (lastIndex (pre @ two_citation_lines))) (pre @ two_citation_lines))) = [''1'', ''2'']"
    by (simp add: li matches_two_citation_lines)
  from 1 2 show ?thesis by (simp add: two_citation_lines_def)
qed

theorem extractReferencesBlock_two_lines_witness:
  "FindAllStringIndex reBlock
     (''> [9]. [Old](http://o)\<newline>if a > b then:\<newline>'' @
      ''> [1]. [A](http://a)\<newline>> [2]. [B](http://b)'') = [(0, 22), (38, 79)] \<and>
   length ''> [9]. [Old](http://o)\<newline>if a > b then:\<newline>'' = 38 \<and>
   extractReferencesBlock ''conv-7'' ''app-3''
     (''> [9]. [Old](http://o)\<newline>if a > b then:\<newline>'' @
      ''> [1]. [A](http://a)\<newline>> [2]. [B](http://b)'') =
     [\<lparr>Name = ''A'', URL = ''http://a'', ConversationID = ''conv-7'', AppID = ''app-3''\<rparr>,
      \<lparr>Name = ''B'', URL = ''http://b'', ConversationID = ''conv-7'', AppID = ''app-3''\<rparr>]"
proof -
  let ?pre = "''> [9]. [Old](http://o)\<newline>if a > b then:\<newline>''"
  let ?L = "''> [1]. [A](http://a)\<newline>> [2]. [B](http://b)''"
  have ms: "FindAllStringIndex reBlock (?pre @ ?L) = [(0, 22), (38, 79)]" by code_simp
  have len: "length ?pre = 38" by simp
  have h: "\<forall>m \<in> set (FindAllStringIndex reBlock (?pre @ ?L)).
             fst m < length ?pre \<longrightarrow> snd m \<le> length ?pre"
    by (simp only: ms len) simp
  from extractReferencesBlock_two_lines [OF h, of "''conv-7''" "''app-3''"]
  have "extractReferencesBlock ''conv-7'' ''app-3'' (?pre @ ?L) =
     [\<lparr>Name = ''A'', URL = ''http://a'', ConversationID = ''conv-7'', AppID = ''app-3''\<rparr>,
      \<lparr>Name = ''B'', URL = ''http://b'', ConversationID = ''conv-7'', AppID = ''app-3''\<rparr>]"
    by (elim conjE)
  with ms len show ?thesis by (intro conjI)
qed

text \<open>
  The claim as first stated, for any text that ends in the two lines, fails when a further
  citation line stands right before them: three references are returned.
\<close>

theorem extractReferencesBlock_two_lines_counterexample:
  "extractReferencesBlock ''conv-7'' ''app-3''
     (''> [0]. [Z](http://z)\<newline>'' @ ''> [1]. [A](http://a)\<newline>> [2]. [B](http://b)'') =
     [\<lparr>Name = ''Z'', URL = ''http://z'', ConversationID = ''conv-7'', AppID = ''app-3''\<rparr>,
      \<lparr>Name = ''A'', URL = ''http://a'', ConversationID = ''conv-7'', AppID = ''app-3''\<rparr>,
      \<lparr>Name = ''B'', URL = ''http://b'', ConversationID = ''conv-7'', AppID = ''app-3''\<rparr>]"
  by code_simp




text \<open>
  The source comments the second step as "extract all references in the last reference
  block" and slices the text from the start of the last match to the end of the text, not to
  the end of the match. When text follows the last match, a citation line in that text is
  returned as well; the theorem above says nothing about such texts.
\<close>

lemma extractReferencesBlock_slice_to_end:
  "FindAllStringIndex reBlock ''> [1]. [A](a)\<newline>x\<newline>> [1]. [A](a)\<newline>> [2]. [B](b) etc'' =
     [(0, 13), (16, 29)] \<and>
   collect_refs ''conv-7'' ''app-3''
     (FindAllStringSubmatch reLine
        (block_span ''> [1]. [A](a)\<newline>x\<newline>> [1]. [A](a)\<newline>> [2]. [B](b) etc'' (16, 29))) =
     [\<lparr>Name = ''A'', URL = ''a'', ConversationID = ''conv-7'', AppID = ''app-3''\<rparr>] \<and>
   extractReferencesBlock ''conv-7'' ''app-3''
     ''> [1]. [A](a)\<newline>x\<newline>> [1]. [A](a)\<newline>> [2]. [B](b) etc'' =
     [\<lparr>Name = ''A'', URL = ''a'', ConversationID = ''conv-7'', AppID = ''app-3''\<rparr>,
      \<lparr>Name = ''B'', URL = ''b'', ConversationID = ''conv-7'', AppID = ''app-3''\<rparr>]"
  by code_simp

lemma step_char_sound:
  "t \<in> set (step_char f s) \<Longrightarrow> \<exists>c. f c \<and> rest s = c # rest t"
  by (cases "rest s") (auto simp: step_char_def split: if_splits)

lemma run_sound: "t \<in> set (run r s) \<Longrightarrow> \<exists>w \<in> lang r. rest s = w @ rest t"
proof (induction r s arbitrary: t rule: run.induct)
  case (1 s)
  then show ?case by simp
next
  case (2 c s)
  from step_char_sound [OF "2.prems" [simplified]] show ?case by auto
next
  case (3 s)
  from step_char_sound [OF "3.prems" [simplified]] show ?case by auto
next
  case (4 s)
  from step_char_sound [OF "4.prems" [simplified]] show ?case by auto
next
  case (5 s)
  from step_char_sound [OF "5.prems" [simplified]] show ?case by auto
next
  case (6 s)
  from step_char_sound [OF "6.prems" [simplified]] show ?case by auto
next
  case (7 s)
  then show ?case by (simp split: if_splits)
next
  case (8 s)
  then show ?case by (simp split: list.splits if_splits)
next
  case (9 a b s)
  from "9.prems" obtain m where m: "m \<in> set (run a s)" and t: "t \<in> set (run b m)"
    by auto
  from "9.IH"(1) [OF m] obtain u where u: "u \<in> lang a" "rest s = u @ rest m" by blast
  from "9.IH"(2) [OF m t] obtain v where v: "v \<in> lang b" "rest m = v @ rest t" by blast
  from u v have "u @ v \<in> lang (Cat a b)" and "rest s = (u @ v) @ rest t" by auto
  then show ?case by blast
next
  case (10 a b s)
  from "10.prems" have "t \<in> set (run a s) \<or> t \<in> set (run b s)" by simp
  with "10.IH" show ?case by auto
next
  case (11 a s)
  from "11.prems" have "t \<in> set (run a s) \<or> t = s" by auto
  with "11.IH" show ?case by auto
next
  case (12 a s)
  show ?case
  proof (cases "t = s")
    case True
    have "[] \<in> lang (Star a)" by (simp add: repeated_Nil)
    with True show ?thesis by force
  next
    case False
    with "12.prems" obtain m where m: "m \<in> set (run a s)"
      and lt: "length (rest m) < length (rest s)" and t: "t \<in> set (run (Star a) m)"
      by (subst (asm) run.simps(12)) (auto split: if_splits)
    from "12.IH"(1) [OF m] obtain u where u: "u \<in> lang a" "rest s = u @ rest m" by blast
    from "12.IH"(2) [OF m lt t] obtain v where v: "v \<in> lang (Star a)" "rest m = v @ rest t"
      by blast
    from u v have "u @ v \<in> lang (Star a)" and "rest s = (u @ v) @ rest t"
      by (simp_all add: repeated_App)
    then show ?thesis by blast
  qed
next
  case (13 a s)
  show ?case
  proof (cases "t = s")
    case True
    have "[] \<in> lang (LazyStar a)" by (simp add: repeated_Nil)
    with True show ?thesis by force
  next
    case False
    with "13.prems" obtain m where m: "m \<in> set (run a s)"
      and lt: "length (rest m) < length (rest s)" and t: "t \<in> set (run (LazyStar a) m)"
      by (subst (asm) run.simps(13)) (auto split: if_splits)
    from "13.IH"(1) [OF m] obtain u where u: "u \<in> lang a" "rest s = u @ rest m" by blast
    from "13.IH"(2) [OF m lt t] obtain v where v: "v \<in> lang (LazyStar a)" "rest m = v @ rest t"
      by blast
    from u v have "u @ v \<in> lang (LazyStar a)" and "rest s = (u @ v) @ rest t"
      by (simp_all add: repeated_App)
    then show ?thesis by blast
  qed
next
  case (14 n a s)
  from "14.prems" obtain m where m: "m \<in> set (run a s)" and t: "rest t = rest m"
    by auto
  from "14.IH" [OF m] t show ?case by simp
qed


lemma must_have_lang: "must_have c r \<Longrightarrow> w \<in> lang r \<Longrightarrow> c \<in> set w"
  by (induction c r arbitrary: w rule: must_have.induct) auto

lemma must_have_reBlock: "must_have CHR '')'' reBlock"
  by (simp add: reBlock_def Plus_def)

lemma reBlock_has_paren: "w \<in> lang reBlock \<Longrightarrow> CHR '')'' \<in> set w"
  using must_have_reBlock by (rule must_have_lang)

lemma run_reBlock_sound:
  assumes "e \<in> set (run reBlock s)"
  shows "\<exists>w \<in> lang reBlock. rest s = w @ rest e \<and> (rest e = [] \<or> hd (rest e) = NL)"
proof -
  obtain X where rb: "reBlock = Cat X EndLine" by (simp add: reBlock_def)
  from assms [unfolded rb] obtain m where m: "m \<in> set (run X s)" and e: "e \<in> set (run EndLine m)"
    by auto
  from e have em: "e = m" and nl: "rest e = [] \<or> hd (rest e) = NL"
    by (auto split: list.splits if_splits)
  from run_sound [OF m] em obtain w where w: "w \<in> lang X" "rest s = w @ rest e" by blast
  from w(1) have "w @ [] \<in> lang (Cat X EndLine)" by (simp del: append_Nil2)
  then have "w \<in> lang reBlock" by (simp add: rb)
  with w(2) nl show ?thesis by blast
qed

lemma search_reBlock_block:
  assumes "search reBlock p text = Some (a, e)"
  shows "block_at_line_end text"
proof -
  from search_rest [OF assms] obtain u where u: "text = u @ a" by blast
  from search_in_run [OF assms] obtain q
    where "e \<in> set (run reBlock \<lparr>prev = q, rest = a, caps = (\<lambda>n. [])\<rparr>)" ..
  from run_reBlock_sound [OF this] obtain w
    where w: "w \<in> lang reBlock" "a = w @ rest e" "rest e = [] \<or> hd (rest e) = NL"
    by auto
  from u w(2) have "text = u @ w @ rest e" by simp
  with w(1,3) show ?thesis unfolding block_at_line_end_def by blast
qed

lemma FindAllStringIndex_reBlock_no_block:
  assumes "\<not> block_at_line_end text"
  shows "FindAllStringIndex reBlock text = []"
proof -
  have "search reBlock None text = None"
  proof (cases "search reBlock None text")
    case None
    then show ?thesis .
  next
    case (Some x)
    obtain a e where "x = (a, e)" by (cases x)
    with Some have "search reBlock None text = Some (a, e)" by simp
    from search_reBlock_block [OF this] assms show ?thesis by simp
  qed
  then have "find_all reBlock None text None = []" by (subst find_all.simps) simp
  then show ?thesis by (simp add: FindAllStringIndex_def)
qed

lemma step_char_complete:
  "f c \<Longrightarrow> rest s = c # v \<Longrightarrow> \<exists>t \<in> set (step_char f s). rest t = v"
  by (simp add: step_char_def)

lemma run_Star_complete:
  assumes a: "\<And>w s v. w \<in> lang a \<Longrightarrow> rest s = w @ v \<Longrightarrow> \<exists>t \<in> set (run a s). rest t = v"
    and w: "w \<in> repeated (lang a)"
  shows "rest s = w @ v \<Longrightarrow> \<exists>t \<in> set (run (Star a) s). rest t = v"
  using w
proof (induction arbitrary: s rule: repeated.induct)
  case repeated_Nil
  have "s \<in> set (run (Star a) s)" by (subst run.simps(12)) simp
  with repeated_Nil show ?case by auto
next
  case (repeated_App u w')
  show ?case
  proof (cases "u = []")
    case True
    with repeated_App.prems have "rest s = w' @ v" by simp
    then show ?thesis by (rule repeated_App.IH)
  next
    case False
    from repeated_App.prems have "rest s = u @ (w' @ v)" by simp
    from a [OF repeated_App.hyps(1) this] obtain m
      where m: "m \<in> set (run a s)" and rm: "rest m = w' @ v" by blast
    from repeated_App.prems rm False have lt: "length (rest m) < length (rest s)" by simp
    from repeated_App.IH [OF rm] obtain t where t: "t \<in> set (run (Star a) m)" "rest t = v"
      by blast
    from m lt t(1) have "t \<in> set (run (Star a) s)"
      by (subst run.simps(12)) force
    with t(2) show ?thesis by blast
  qed
qed

lemma run_LazyStar_complete:
  assumes a: "\<And>w s v. w \<in> lang a \<Longrightarrow> rest s = w @ v \<Longrightarrow> \<exists>t \<in> set (run a s). rest t = v"
    and w: "w \<in> repeated (lang a)"
  shows "rest s = w @ v \<Longrightarrow> \<exists>t \<in> set (run (LazyStar a) s). rest t = v"
  using w
proof (induction arbitrary: s rule: repeated.induct)
  case repeated_Nil
  have "s \<in> set (run (LazyStar a) s)" by (subst run.simps(13)) simp
  with repeated_Nil show ?case by auto
next
  case (repeated_App u w')
  show ?case
  proof (cases "u = []")
    case True
    with repeated_App.prems have "rest s = w' @ v" by simp
    then show ?thesis by (rule repeated_App.IH)
  next
    case False
    from repeated_App.prems have "rest s = u @ (w' @ v)" by simp
    from a [OF repeated_App.hyps(1) this] obtain m
      where m: "m \<in> set (run a s)" and rm: "rest m = w' @ v" by blast
    from repeated_App.prems rm False have lt: "length (rest m) < length (rest s)" by simp
    from repeated_App.IH [OF rm] obtain t where t: "t \<in> set (run (LazyStar a) m)" "rest t = v"
      by blast
    from m lt t(1) have "t \<in> set (run (LazyStar a) s)"
      by (subst run.simps(13)) force
    with t(2) show ?thesis by blast
  qed
qed

lemma run_complete:
  "no_anchor r \<Longrightarrow> w \<in> lang r \<Longrightarrow> rest s = w @ v \<Longrightarrow> \<exists>t \<in> set (run r s). rest t = v"
proof (induction r arbitrary: w s v)
  case Eps
  then show ?case by simp
next
  case (Lit c)
  then show ?case by (simp add: step_char_complete)
next
  case AnyChar
  then show ?case by (auto simp: step_char_complete)
next
  case AnyCharNotNL
  then show ?case by (auto simp: step_char_complete)
next
  case Space
  then show ?case by (auto simp: step_char_complete)
next
  case Digit
  then show ?case by (auto simp: step_char_complete)
next
  case BeginLine
  then show ?case by simp
next
  case EndLine
  then show ?case by simp
next
  case (Cat a b)
  from Cat.prems obtain u x where w: "w = u @ x" and u: "u \<in> lang a" and x: "x \<in> lang b"
    and na: "no_anchor a" and nb: "no_anchor b" by auto
  from Cat.prems(3) w have "rest s = u @ (x @ v)" by simp
  from Cat.IH(1) [OF na u this] obtain m where m: "m \<in> set (run a s)" "rest m = x @ v" by blast
  from Cat.IH(2) [OF nb x m(2)] obtain t where t: "t \<in> set (run b m)" "rest t = v" by blast
  from m(1) t(1) have "t \<in> set (run (Cat a b) s)" by auto
  with t(2) show ?case by blast
next
  case (Alt a b)
  from Alt.prems have na: "no_anchor a" and nb: "no_anchor b" by simp_all
  from Alt.prems have "w \<in> lang a \<or> w \<in> lang b" by simp
  then show ?case
  proof
    assume "w \<in> lang a"
    from Alt.IH(1) [OF na this Alt.prems(3)] show ?thesis by auto
  next
    assume "w \<in> lang b"
    from Alt.IH(2) [OF nb this Alt.prems(3)] show ?thesis by auto
  qed
next
  case (Quest a)
  from Quest.prems have na: "no_anchor a" by simp
  from Quest.prems have "w = [] \<or> w \<in> lang a" by simp
  then show ?case
  proof
    assume "w = []"
    with Quest.prems(3) show ?thesis by simp
  next
    assume "w \<in> lang a"
    from Quest.IH [OF na this Quest.prems(3)] show ?thesis by auto
  qed
next
  case (Star a)
  from Star.prems have na: "no_anchor a" and w: "w \<in> repeated (lang a)" by simp_all
  from Star.IH [OF na] w Star.prems(3) show ?case by (rule run_Star_complete)
next
  case (LazyStar a)
  from LazyStar.prems have na: "no_anchor a" and w: "w \<in> repeated (lang a)" by simp_all
  from LazyStar.IH [OF na] w LazyStar.prems(3) show ?case by (rule run_LazyStar_complete)
next
  case (Capture n a)
  from Capture.prems have na: "no_anchor a" and w: "w \<in> lang a" by simp_all
  from Capture.IH [OF na w Capture.prems(3)] obtain m where m: "m \<in> set (run a s)" "rest m = v"
    by blast
  let ?t = "m\<lparr>caps := (caps m)(n := take (length (rest s) - length (rest m)) (rest s))\<rparr>"
  from m(1) have "?t \<in> set (run (Capture n a) s)" by simp
  moreover from m(2) have "rest ?t = v" by simp
  ultimately show ?case by blast
qed

lemma run_reBlock_complete:
  assumes w: "w \<in> lang reBlock" and s: "rest s = w @ v" and v: "v = [] \<or> hd v = NL"
  shows "run reBlock s \<noteq> []"
proof -
  obtain X where rb: "reBlock = Cat X EndLine" and na: "no_anchor X"
    by (simp add: reBlock_def Plus_def quote_marker_def)
  from w have "w \<in> lang X" by (simp add: rb)
  from run_complete [OF na this s] obtain t where t: "t \<in> set (run X s)" "rest t = v" by blast
  from t(2) v have "t \<in> set (run EndLine t)" by (cases v) auto
  with t(1) have "t \<in> set (run reBlock s)" unfolding rb by auto
  then show ?thesis by auto
qed

lemma search_found:
  assumes "\<And>q. run r \<lparr>prev = q, rest = a, caps = (\<lambda>n. [])\<rparr> \<noteq> []"
  shows "search r p (u @ a) \<noteq> None"
proof (induction u arbitrary: p)
  case Nil
  from assms [of p] show ?case by (cases a) (auto split: list.splits)
next
  case (Cons c u)
  show ?case
  proof (cases "run r \<lparr>prev = p, rest = c # u @ a, caps = (\<lambda>n. [])\<rparr>")
    case Nil
    with Cons.IH [of "Some c"] show ?thesis by simp
  next
    case (Cons e es)
    then show ?thesis by simp
  qed
qed

lemma FindAllStringIndex_reBlock_block:
  assumes "block_at_line_end text"
  shows "FindAllStringIndex reBlock text \<noteq> []"
proof -
  from assms obtain u w v where t: "text = u @ w @ v" and w: "w \<in> lang reBlock"
    and v: "v = [] \<or> hd v = NL" unfolding block_at_line_end_def by blast
  have "run reBlock \<lparr>prev = q, rest = w @ v, caps = (\<lambda>n. [])\<rparr> \<noteq> []" for q
    using w _ v by (rule run_reBlock_complete) simp
  then have "search reBlock None (u @ w @ v) \<noteq> None" by (rule search_found)
  with t obtain a e where s: "search reBlock None text = Some (a, e)" by auto
  from search_in_run [OF s] obtain q
    where "e \<in> set (run reBlock \<lparr>prev = q, rest = a, caps = (\<lambda>n. [])\<rparr>)" ..
  from run_reBlock_consumes [OF this] have "length (rest e) < length a" by simp
  with search_length [OF s] have "length (rest e) \<noteq> length text" by simp
  with s have "find_all reBlock None text None \<noteq> []" by (subst find_all.simps) simp
  then show ?thesis by (simp add: FindAllStringIndex_def)
qed

text \<open>
  The condition is exact for the guard of the extractor: the block pattern matches
  somewhere in a text precisely when a block of the text is followed by a newline or by the
  end of the text.
\<close>

lemma FindAllStringIndex_reBlock_iff:
  "FindAllStringIndex reBlock text = [] \<longleftrightarrow> \<not> block_at_line_end text"
  using FindAllStringIndex_reBlock_block FindAllStringIndex_reBlock_no_block by blast

text \<open>
  C3, as amended. A block is a text that the block pattern can consume. When no block of
  the text is followed by a newline or by the end of the text, \<open>extractReferencesBlock\<close>
  returns the empty sequence; it has no error result at all, so no error is signalled.
\<close>

theorem extractReferencesBlock_no_block:
  assumes "\<not> block_at_line_end text"
  shows "extractReferencesBlock conversationID appID text = []"
proof -
  from assms have "FindAllStringIndex reBlock text = []"
    by (rule FindAllStringIndex_reBlock_no_block)
  then have "lastIndex text = - 1" by (simp add: lastIndex_def)
  then show ?thesis by (simp add: extractReferencesBlock_def)
qed

theorem extractReferencesBlock_no_block_witness:
  "\<not> block_at_line_end ''> [1]. [A] is quoted, with no link\<newline>That is all.'' \<and>
   extractReferencesBlock ''conv-7'' ''app-3'' ''> [1]. [A] is quoted, with no link\<newline>That is all.'' = []"
proof -
  let ?t = "''> [1]. [A] is quoted, with no link\<newline>That is all.''"
  have h: "\<not> block_at_line_end ?t"
  proof
    assume "block_at_line_end ?t"
    then obtain u w v where t: "?t = u @ w @ v" and w: "w \<in> lang reBlock"
      unfolding block_at_line_end_def by blast
    from reBlock_has_paren [OF w] have "CHR '')'' \<in> set (u @ w @ v)" by simp
    with t [symmetric] show False by simp
  qed
  from extractReferencesBlock_no_block [OF h, of "''conv-7''" "''app-3''"] h
  show ?thesis by simp
qed

text \<open>
  The claim as first stated fails for a block that stands only mid-document: it is followed
  by a line that is no citation, and its reference is returned all the same.
\<close>

theorem extractReferencesBlock_no_block_counterexample:
  "extractReferencesBlock ''conv-7'' ''app-3'' ''> [1]. [A](http://a)\<newline>That is all.'' =
     [\<lparr>Name = ''A'', URL = ''http://a'', ConversationID = ''conv-7'', AppID = ''app-3''\<rparr>]"
  by code_simp

section \<open>Properties of the conversation use case\<close>

text \<open>
  C4. \<open>CreateConversation\<close> calls the store first and, when the store fails, returns its
  error with nothing else done. When the store succeeds the call returns no error whatever
  the enrichment does: a failed lookup is logged as a warning, a resolved address is written
  to the geo cache as \<open>country|province|city\<close> under the conversation's knowledge base, and
  a failed cache write is logged as a warning.
\<close>

theorem CreateConversation_best_effort:
  "(\<forall>e. repoCreate c = Some e \<longrightarrow>
      CreateConversation repoCreate getIP setGeo c = ([RepoCreateConversation (conv_ID c)], Some e))
   \<and> (repoCreate c = None \<longrightarrow>
        snd (CreateConversation repoCreate getIP setGeo c) = None
      \<and> (\<exists>tr. fst (CreateConversation repoCreate getIP setGeo c) =
                RepoCreateConversation (conv_ID c) # IPRepoGetIPAddress (conv_RemoteIP c) # tr)
      \<and> (\<forall>a. getIP (conv_RemoteIP c) = Inr a \<longrightarrow>
            GeoCacheSetGeo (conv_KBID c) (Country a @ ''|'' @ Province a @ ''|'' @ City a)
              \<in> set (fst (CreateConversation repoCreate getIP setGeo c)))
      \<and> (\<forall>e. getIP (conv_RemoteIP c) = Inl e \<longrightarrow>
            fst (CreateConversation repoCreate getIP setGeo c) =
              [RepoCreateConversation (conv_ID c), IPRepoGetIPAddress (conv_RemoteIP c),
               Log LWarn ''get ip address failed''
                 [FError e, FString ''ip'' (conv_RemoteIP c), FString ''conversation_id'' (conv_ID c)]])
      \<and> (\<forall>a e. getIP (conv_RemoteIP c) = Inr a \<and>
                 setGeo (conv_KBID c) (Country a @ ''|'' @ Province a @ ''|'' @ City a) = Some e \<longrightarrow>
            Log LWarn ''set geo cache failed''
              [FError e, FString ''conversation_id'' (conv_ID c), FString ''ip'' (conv_RemoteIP c)]
              \<in> set (fst (CreateConversation repoCreate getIP setGeo c))))"
proof (cases "repoCreate c")
  case (Some e)
  then show ?thesis by (simp add: CreateConversation_def Let_def)
next
  case None
  show ?thesis
  proof (cases "getIP (conv_RemoteIP c)")
    case (Inl e)
    with None show ?thesis by (simp add: CreateConversation_def Let_def)
  next
    case (Inr a)
    show ?thesis
    proof (cases "setGeo (conv_KBID c) (Country a @ ''|'' @ Province a @ ''|'' @ City a)")
      case None
      with \<open>repoCreate c = None\<close> Inr show ?thesis by (simp add: CreateConversation_def Let_def)
    next
      case (Some e)
      with \<open>repoCreate c = None\<close> Inr show ?thesis by (simp add: CreateConversation_def Let_def)
    qed
  qed
qed

theorem CreateConversation_best_effort_witness:
  "snd (CreateConversation (\<lambda>c. None)
          (\<lambda>ip. Inr \<lparr>Country = ''CN'', Province = ''Zhejiang'', City = ''Hangzhou''\<rparr>)
          (\<lambda>kb loc. Some (Err ''cache down''))
          \<lparr>conv_ID = ''conv-7'', conv_KBID = ''kb-1'', conv_RemoteIP = ''203.0.113.9''\<rparr>) = None
   \<and> GeoCacheSetGeo ''kb-1'' ''CN|Zhejiang|Hangzhou''
       \<in> set (fst (CreateConversation (\<lambda>c. None)
          (\<lambda>ip. Inr \<lparr>Country = ''CN'', Province = ''Zhejiang'', City = ''Hangzhou''\<rparr>)
          (\<lambda>kb loc. Some (Err ''cache down''))
          \<lparr>conv_ID = ''conv-7'', conv_KBID = ''kb-1'', conv_RemoteIP = ''203.0.113.9''\<rparr>))
   \<and> Log LWarn ''set geo cache failed''
         [FError (Err ''cache down''), FString ''conversation_id'' ''conv-7'', FString ''ip'' ''203.0.113.9'']
       \<in> set (fst (CreateConversation (\<lambda>c. None)
          (\<lambda>ip. Inr \<lparr>Country = ''CN'', Province = ''Zhejiang'', City = ''Hangzhou''\<rparr>)
          (\<lambda>kb loc. Some (Err ''cache down''))
          \<lparr>conv_ID = ''conv-7'', conv_KBID = ''kb-1'', conv_RemoteIP = ''203.0.113.9''\<rparr>))
   \<and> CreateConversation (\<lambda>c. Some (Err ''db down''))
          (\<lambda>ip. Inr \<lparr>Country = ''CN'', Province = ''Zhejiang'', City = ''Hangzhou''\<rparr>)
          (\<lambda>kb loc. None)
          \<lparr>conv_ID = ''conv-7'', conv_KBID = ''kb-1'', conv_RemoteIP = ''203.0.113.9''\<rparr> =
       ([RepoCreateConversation ''conv-7''], Some (Err ''db down''))"
  using CreateConversation_best_effort [of "\<lambda>c. None"
          "\<lparr>conv_ID = ''conv-7'', conv_KBID = ''kb-1'', conv_RemoteIP = ''203.0.113.9''\<rparr>"
          "\<lambda>ip. Inr \<lparr>Country = ''CN'', Province = ''Zhejiang'', City = ''Hangzhou''\<rparr>"
          "\<lambda>kb loc. Some (Err ''cache down'')"]
        CreateConversation_best_effort [of "\<lambda>c. Some (Err ''db down'')"
          "\<lparr>conv_ID = ''conv-7'', conv_KBID = ''kb-1'', conv_RemoteIP = ''203.0.113.9''\<rparr>"
          "\<lambda>ip. Inr \<lparr>Country = ''CN'', Province = ''Zhejiang'', City = ''Hangzhou''\<rparr>"
          "\<lambda>kb loc. None"]
  by simp

text \<open>
  C7. \<open>GetConversationDetail\<close> returns the error, and no result, when the fetch of the
  conversation, of its messages or of its references fails; when all three succeed it
  returns a result, whatever the lookup of the address gives.
\<close>

theorem GetConversationDetail_failures:
  "(\<forall>e. repoDetail cid = Inl e \<longrightarrow>
      snd (GetConversationDetail repoDetail getIP repoMessages repoReferences cid) = Inl e)
   \<and> (\<forall>c e. repoDetail cid = Inr c \<and> repoMessages cid = Inl e \<longrightarrow>
      snd (GetConversationDetail repoDetail getIP repoMessages repoReferences cid) = Inl e)
   \<and> (\<forall>c ms e. repoDetail cid = Inr c \<and> repoMessages cid = Inr ms \<and> repoReferences cid = Inl e \<longrightarrow>
      snd (GetConversationDetail repoDetail getIP repoMessages repoReferences cid) = Inl e)
   \<and> (\<forall>c ms rs. repoDetail cid = Inr c \<and> repoMessages cid = Inr ms \<and> repoReferences cid = Inr rs \<longrightarrow>
      (\<exists>d. snd (GetConversationDetail repoDetail getIP repoMessages repoReferences cid) = Inr d
           \<and> detail_Messages d = ms \<and> detail_References d = rs
           \<and> detail_RemoteIP d = detail_RemoteIP c))"
proof (cases "repoDetail cid")
  case (Inl e)
  then show ?thesis by (simp add: GetConversationDetail_def)
next
  case (Inr c)
  note c = Inr
  show ?thesis
  proof (cases "repoMessages cid")
    case (Inl e)
    with c show ?thesis
      by (simp add: GetConversationDetail_def case_prod_unfold Let_def)
  next
    case (Inr ms)
    note ms = Inr
    show ?thesis
    proof (cases "repoReferences cid")
      case (Inl e)
      with c ms show ?thesis
        by (simp add: GetConversationDetail_def case_prod_unfold Let_def)
    next
      case (Inr rs)
      with c ms show ?thesis
        by (cases "getIP (detail_RemoteIP c)")
           (simp_all add: GetConversationDetail_def case_prod_unfold Let_def)
    qed
  qed
qed

theorem GetConversationDetail_failures_witness:
  "(\<exists>d. snd (GetConversationDetail
              (\<lambda>i. Inr \<lparr>detail_RemoteIP = ''not-an-ip'', detail_IPAddress = None,
                          detail_Messages = ([] :: string list),
                          detail_References = ([] :: string list)\<rparr>)
              (\<lambda>ip. Inl (Err ''invalid ip''))
              (\<lambda>i. Inr [''hello'', ''hi there''])
              (\<lambda>i. Inr [''ref'']) ''conv-7'') = Inr d
        \<and> detail_Messages d = [''hello'', ''hi there''] \<and> detail_References d = [''ref''])
   \<and> snd (GetConversationDetail
              (\<lambda>i. Inr \<lparr>detail_RemoteIP = ''not-an-ip'', detail_IPAddress = None,
                          detail_Messages = ([] :: string list),
                          detail_References = ([] :: string list)\<rparr>)
              (\<lambda>ip. Inr \<lparr>Country = ''CN'', Province = ''Zhejiang'', City = ''Hangzhou''\<rparr>)
              (\<lambda>i. Inr [''hello'', ''hi there''])
              (\<lambda>i. Inl (Err ''db down'')) ''conv-7'') = Inl (Err ''db down'')"
proof -
  let ?c = "\<lparr>detail_RemoteIP = ''not-an-ip'', detail_IPAddress = None,
             detail_Messages = ([] :: string list), detail_References = ([] :: string list)\<rparr>"
  from GetConversationDetail_failures [of "\<lambda>i. Inr ?c" "''conv-7''"
          "\<lambda>ip. Inl (Err ''invalid ip'')" "\<lambda>i. Inr [''hello'', ''hi there'']" "\<lambda>i. Inr [''ref'']"]
  have 1: "\<exists>d. snd (GetConversationDetail (\<lambda>i. Inr ?c) (\<lambda>ip. Inl (Err ''invalid ip''))
              (\<lambda>i. Inr [''hello'', ''hi there'']) (\<lambda>i. Inr [''ref'']) ''conv-7'') = Inr d
        \<and> detail_Messages d = [''hello'', ''hi there''] \<and> detail_References d = [''ref'']"
    by simp blast
  from GetConversationDetail_failures [of "\<lambda>i. Inr ?c" "''conv-7''"
          "\<lambda>ip. Inr \<lparr>Country = ''CN'', Province = ''Zhejiang'', City = ''Hangzhou''\<rparr>"
          "\<lambda>i. Inr [''hello'', ''hi there'']" "\<lambda>i. Inl (Err ''db down'')"]
  have 2: "snd (GetConversationDetail (\<lambda>i. Inr ?c)
              (\<lambda>ip. Inr \<lparr>Country = ''CN'', Province = ''Zhejiang'', City = ''Hangzhou''\<rparr>)
              (\<lambda>i. Inr [''hello'', ''hi there''])
              (\<lambda>i. Inl (Err ''db down'')) ''conv-7'') = Inl (Err ''db down'')"
    by simp
  from 1 2 show ?thesis by (rule conjI)
qed

lemma enrich_hit:
  "m (item_RemoteIP c) = Some a \<Longrightarrow> enrich g c (m, tr) = (c\<lparr>item_IPAddress := Some a\<rparr>, m, tr)"
  by (simp add: enrich_def)

lemma enrich_fail:
  "m (item_RemoteIP c) = None \<Longrightarrow> g (item_RemoteIP c) = Inl e \<Longrightarrow>
   enrich g c (m, tr) =
     (c, m, tr @ [IPRepoGetIPAddress (item_RemoteIP c),
                  Log LError ''get ip address failed'' [FError e, FString ''ip'' (item_RemoteIP c)]])"
  by (simp add: enrich_def)

lemma enrich_miss:
  "m (item_RemoteIP c) = None \<Longrightarrow> g (item_RemoteIP c) = Inr a \<Longrightarrow>
   enrich g c (m, tr) =
     (c\<lparr>item_IPAddress := Some a\<rparr>, m(item_RemoteIP c \<mapsto> a), tr @ [IPRepoGetIPAddress (item_RemoteIP c)])"
  by (simp add: enrich_def)

lemma cache_ok_empty: "cache_ok g Map.empty"
  by (simp add: cache_ok_def)

lemma cache_ok_upd: "cache_ok g m \<Longrightarrow> g ip = Inr a \<Longrightarrow> cache_ok g (m(ip \<mapsto> a))"
  by (simp add: cache_ok_def)

lemma cache_ok_hit: "cache_ok g m \<Longrightarrow> m ip = Some a \<Longrightarrow> g ip = Inr a"
  by (simp add: cache_ok_def)

text \<open>The three cases of the callback, as one induction principle for the loop.\<close>

lemma enrich_all_cases:
  assumes ok: "cache_ok g m"
  obtains
    (hit) a where "m (item_RemoteIP c) = Some a" "g (item_RemoteIP c) = Inr a"
      "enrich_all g (c # cs) (m, tr) =
         (c\<lparr>item_IPAddress := Some a\<rparr> # fst (enrich_all g cs (m, tr)), snd (enrich_all g cs (m, tr)))"
  | (fail) e where "m (item_RemoteIP c) = None" "g (item_RemoteIP c) = Inl e"
      "enrich_all g (c # cs) (m, tr) =
         (c # fst (enrich_all g cs (m, tr @ [IPRepoGetIPAddress (item_RemoteIP c),
                  Log LError ''get ip address failed'' [FError e, FString ''ip'' (item_RemoteIP c)]])),
          snd (enrich_all g cs (m, tr @ [IPRepoGetIPAddress (item_RemoteIP c),
                  Log LError ''get ip address failed'' [FError e, FString ''ip'' (item_RemoteIP c)]])))"
  | (miss) a where "m (item_RemoteIP c) = None" "g (item_RemoteIP c) = Inr a"
      "cache_ok g (m(item_RemoteIP c \<mapsto> a))"
      "enrich_all g (c # cs) (m, tr) =
         (c\<lparr>item_IPAddress := Some a\<rparr> #
            fst (enrich_all g cs (m(item_RemoteIP c \<mapsto> a), tr @ [IPRepoGetIPAddress (item_RemoteIP c)])),
          snd (enrich_all g cs (m(item_RemoteIP c \<mapsto> a), tr @ [IPRepoGetIPAddress (item_RemoteIP c)])))"
proof (cases "m (item_RemoteIP c)")
  case (Some a)
  from cache_ok_hit [OF ok Some] have "g (item_RemoteIP c) = Inr a" .
  moreover have "enrich_all g (c # cs) (m, tr) =
         (c\<lparr>item_IPAddress := Some a\<rparr> # fst (enrich_all g cs (m, tr)), snd (enrich_all g cs (m, tr)))"
    using enrich_hit [of m c a g tr] Some by (simp add: case_prod_unfold)
  ultimately show ?thesis using Some by (rule hit [rotated])
next
  case None
  show ?thesis
  proof (cases "g (item_RemoteIP c)")
    case (Inl e)
    show ?thesis
      using enrich_fail [of m c g e tr] None Inl by (intro fail [OF None Inl]) (simp add: case_prod_unfold)
  next
    case (Inr a)
    show ?thesis
      using enrich_miss [of m c g a tr] None Inr
      by (intro miss [OF None Inr cache_ok_upd [OF ok Inr]]) (simp add: case_prod_unfold)
  qed
qed


lemma resolve_row_Inr: "g (item_RemoteIP c) = Inr a \<Longrightarrow> resolve_row g c = c\<lparr>item_IPAddress := Some a\<rparr>"
  by (simp add: resolve_row_def)

lemma resolve_row_Inl: "g (item_RemoteIP c) = Inl e \<Longrightarrow> resolve_row g c = c"
  by (simp add: resolve_row_def)

lemma enrich_all_rows:
  "cache_ok g m \<Longrightarrow> fst (enrich_all g cs (m, tr)) = map (resolve_row g) cs"
proof (induction cs arbitrary: m tr)
  case Nil
  then show ?case by simp
next
  case (Cons c cs)
  from Cons.prems show ?case
  proof (cases rule: enrich_all_cases [of g m c cs tr])
    case (hit a)
    show ?thesis
      by (simp only: hit(3) fst_conv list.simps(9) Cons.IH [OF Cons.prems] resolve_row_Inr [of g c a, OF hit(2)])
  next
    case (fail e)
    show ?thesis
      by (simp only: fail(3) fst_conv list.simps(9) Cons.IH [OF Cons.prems] resolve_row_Inl [of g c e, OF fail(2)])
  next
    case (miss a)
    show ?thesis
      by (simp only: miss(4) fst_conv list.simps(9) Cons.IH [OF miss(3)] resolve_row_Inr [of g c a, OF miss(2)])
  qed
qed

lemma enrich_all_trace_mono:
  "cache_ok g m \<Longrightarrow> x \<in> set tr \<Longrightarrow> x \<in> set (snd (snd (enrich_all g cs (m, tr))))"
proof (induction cs arbitrary: m tr)
  case Nil
  then show ?case by simp
next
  case (Cons c cs)
  from Cons.prems(1) show ?case
  proof (cases rule: enrich_all_cases [of g m c cs tr])
    case (hit a)
    from Cons.IH [OF Cons.prems] show ?thesis by (simp only: hit(3) snd_conv)
  next
    case (fail e)
    from Cons.prems(2) have "x \<in> set (tr @ [IPRepoGetIPAddress (item_RemoteIP c),
        Log LError ''get ip address failed'' [FError e, FString ''ip'' (item_RemoteIP c)]])" by simp
    from Cons.IH [OF Cons.prems(1) this] show ?thesis by (simp only: fail(3) snd_conv)
  next
    case (miss a)
    from Cons.prems(2) have "x \<in> set (tr @ [IPRepoGetIPAddress (item_RemoteIP c)])" by simp
    from Cons.IH [OF miss(3) this] show ?thesis by (simp only: miss(4) snd_conv)
  qed
qed

lemma enrich_all_logs:
  "cache_ok g m \<Longrightarrow> r \<in> set cs \<Longrightarrow> g (item_RemoteIP r) = Inl e \<Longrightarrow>
   Log LError ''get ip address failed'' [FError e, FString ''ip'' (item_RemoteIP r)]
     \<in> set (snd (snd (enrich_all g cs (m, tr))))"
proof (induction cs arbitrary: m tr)
  case Nil
  then show ?case by simp
next
  case (Cons c cs)
  from Cons.prems(1) show ?case
  proof (cases rule: enrich_all_cases [of g m c cs tr])
    case (hit a)
    from hit(2) Cons.prems(3) have "r \<noteq> c" by auto
    with Cons.prems(2) have "r \<in> set cs" by simp
    from Cons.IH [OF Cons.prems(1) this Cons.prems(3)] show ?thesis by (simp only: hit(3) snd_conv)
  next
    case (fail e')
    show ?thesis
    proof (cases "r = c")
      case True
      with fail(2) Cons.prems(3) have "e' = e" by simp
      with True have "Log LError ''get ip address failed'' [FError e, FString ''ip'' (item_RemoteIP r)]
        \<in> set (tr @ [IPRepoGetIPAddress (item_RemoteIP c),
            Log LError ''get ip address failed'' [FError e', FString ''ip'' (item_RemoteIP c)]])"
        by simp
      from enrich_all_trace_mono [OF Cons.prems(1) this] show ?thesis by (simp only: fail(3) snd_conv)
    next
      case False
      with Cons.prems(2) have "r \<in> set cs" by simp
      from Cons.IH [OF Cons.prems(1) this Cons.prems(3)] show ?thesis by (simp only: fail(3) snd_conv)
    qed
  next
    case (miss a)
    from miss(2) Cons.prems(3) have "r \<noteq> c" by auto
    with Cons.prems(2) have "r \<in> set cs" by simp
    from Cons.IH [OF miss(3) this Cons.prems(3)] show ?thesis by (simp only: miss(4) snd_conv)
  qed
qed

lemma enrich_all_lookups:
  "cache_ok g m \<Longrightarrow>
   count_list (snd (snd (enrich_all g cs (m, tr)))) (IPRepoGetIPAddress ip) =
     count_list tr (IPRepoGetIPAddress ip) +
     (case g ip of
        Inl e \<Rightarrow> length (filter (\<lambda>c. item_RemoteIP c = ip) cs)
      | Inr a \<Rightarrow> (if m ip = None \<and> ip \<in> item_RemoteIP ` set cs then 1 else 0))"
proof (induction cs arbitrary: m tr)
  case Nil
  then show ?case by (simp split: sum.splits)
next
  case (Cons c cs)
  from Cons.prems show ?case
  proof (cases rule: enrich_all_cases [of g m c cs tr])
    case (hit a)
    have "count_list (snd (snd (enrich_all g (c # cs) (m, tr)))) (IPRepoGetIPAddress ip) =
          count_list tr (IPRepoGetIPAddress ip) +
          (case g ip of
             Inl e \<Rightarrow> length (filter (\<lambda>c. item_RemoteIP c = ip) cs)
           | Inr a \<Rightarrow> (if m ip = None \<and> ip \<in> item_RemoteIP ` set cs then 1 else 0))"
      by (simp only: hit(3) snd_conv Cons.IH [OF Cons.prems])
    also have "\<dots> = count_list tr (IPRepoGetIPAddress ip) +
          (case g ip of
             Inl e \<Rightarrow> length (filter (\<lambda>c. item_RemoteIP c = ip) (c # cs))
           | Inr a \<Rightarrow> (if m ip = None \<and> ip \<in> item_RemoteIP ` set (c # cs) then 1 else 0))"
      using hit(1,2) by (cases "item_RemoteIP c = ip") (simp_all split: sum.splits)
    finally show ?thesis .
  next
    case (fail e)
    let ?tr = "tr @ [IPRepoGetIPAddress (item_RemoteIP c),
        Log LError ''get ip address failed'' [FError e, FString ''ip'' (item_RemoteIP c)]]"
    have "count_list (snd (snd (enrich_all g (c # cs) (m, tr)))) (IPRepoGetIPAddress ip) =
          count_list ?tr (IPRepoGetIPAddress ip) +
          (case g ip of
             Inl e \<Rightarrow> length (filter (\<lambda>c. item_RemoteIP c = ip) cs)
           | Inr a \<Rightarrow> (if m ip = None \<and> ip \<in> item_RemoteIP ` set cs then 1 else 0))"
      by (simp only: fail(3) snd_conv Cons.IH [OF Cons.prems])
    also have "\<dots> = count_list tr (IPRepoGetIPAddress ip) +
          (case g ip of
             Inl e \<Rightarrow> length (filter (\<lambda>c. item_RemoteIP c = ip) (c # cs))
           | Inr a \<Rightarrow> (if m ip = None \<and> ip \<in> item_RemoteIP ` set (c # cs) then 1 else 0))"
      using fail(1,2) by (cases "item_RemoteIP c = ip") (simp_all split: sum.splits)
    finally show ?thesis .
  next
    case (miss a)
    let ?tr = "tr @ [IPRepoGetIPAddress (item_RemoteIP c)]"
    let ?m = "m(item_RemoteIP c \<mapsto> a)"
    have "count_list (snd (snd (enrich_all g (c # cs) (m, tr)))) (IPRepoGetIPAddress ip) =
          count_list ?tr (IPRepoGetIPAddress ip) +
          (case g ip of
             Inl e \<Rightarrow> length (filter (\<lambda>c. item_RemoteIP c = ip) cs)
           | Inr a \<Rightarrow> (if ?m ip = None \<and> ip \<in> item_RemoteIP ` set cs then 1 else 0))"
      by (simp only: miss(4) snd_conv Cons.IH [OF miss(3)])
    also have "\<dots> = count_list tr (IPRepoGetIPAddress ip) +
          (case g ip of
             Inl e \<Rightarrow> length (filter (\<lambda>c. item_RemoteIP c = ip) (c # cs))
           | Inr a \<Rightarrow> (if m ip = None \<and> ip \<in> item_RemoteIP ` set (c # cs) then 1 else 0))"
      using miss(1,2) by (cases "item_RemoteIP c = ip") (simp_all split: sum.splits)
    finally show ?thesis .
  qed
qed


lemma GetConversationList_Inr:
  assumes "repoList req = Inr (rows, n)"
  shows "GetConversationList repoList getIP req =
           (snd (snd (enrich_all getIP rows (Map.empty, [RepoGetConversationList]))),
            Inr (NewPaginatedResult (map (resolve_row getIP) rows) n))"
proof -
  have "fst (enrich_all getIP rows (Map.empty, [RepoGetConversationList])) = map (resolve_row getIP) rows"
    by (rule enrich_all_rows [OF cache_ok_empty])
  with assms show ?thesis
    by (simp add: GetConversationList_def case_prod_unfold)
qed

text \<open>
  C6, as amended. An address that does not resolve fails neither call.
  \<open>GetConversationList\<close> returns every row with its total; a row whose address fails is
  returned exactly as the store gave it, so with the location the store gave it (none when
  the store gave none), the failure is logged, and every row differs from the stored one in
  its location at most. \<open>GetConversationDetail\<close> logs the failure and returns the
  conversation as stored, its location as the store gave it, with its messages and
  references.
\<close>

theorem enrichment_failure_not_fatal:
  "(\<forall>rows n. repoList req = Inr (rows, n) \<longrightarrow>
      (\<exists>tr rows'. GetConversationList repoList getIP req = (tr, Inr (NewPaginatedResult rows' n))
         \<and> length rows' = length rows
         \<and> (\<forall>i e. i < length rows \<and> getIP (item_RemoteIP (rows ! i)) = Inl e \<longrightarrow>
               rows' ! i = rows ! i
             \<and> item_IPAddress (rows' ! i) = item_IPAddress (rows ! i)
             \<and> (item_IPAddress (rows ! i) = None \<longrightarrow> item_IPAddress (rows' ! i) = None)
             \<and> Log LError ''get ip address failed''
                 [FError e, FString ''ip'' (item_RemoteIP (rows ! i))] \<in> set tr)
         \<and> (\<forall>i. i < length rows \<longrightarrow> (\<exists>l. rows' ! i = (rows ! i)\<lparr>item_IPAddress := l\<rparr>))))
   \<and> (\<forall>c e ms rs. repoDetail cid = Inr c \<and> getIP (detail_RemoteIP c) = Inl e
          \<and> repoMessages cid = Inr ms \<and> repoReferences cid = Inr rs \<longrightarrow>
        (\<exists>d. GetConversationDetail repoDetail getIP repoMessages repoReferences cid =
          ([RepoGetConversationDetail cid, IPRepoGetIPAddress (detail_RemoteIP c),
            Log LError ''get ip address failed'' [FError e, FString ''ip'' (detail_RemoteIP c)],
            RepoGetConversationMessagesByID cid, RepoGetConversationReferences cid],
           Inr d)
          \<and> d = c\<lparr>detail_Messages := ms, detail_References := rs\<rparr>
          \<and> detail_IPAddress d = detail_IPAddress c
          \<and> (detail_IPAddress c = None \<longrightarrow> detail_IPAddress d = None)))"
proof (intro conjI allI impI)
  fix rows n
  assume rl: "repoList req = Inr (rows, n)"
  let ?tr = "snd (snd (enrich_all getIP rows (Map.empty, [RepoGetConversationList])))"
  let ?rows = "map (resolve_row getIP) rows"
  have a: "GetConversationList repoList getIP req = (?tr, Inr (NewPaginatedResult ?rows n))"
    using rl by (rule GetConversationList_Inr)
  have b: "length ?rows = length rows" by simp
  have c: "\<forall>i e. i < length rows \<and> getIP (item_RemoteIP (rows ! i)) = Inl e \<longrightarrow>
               ?rows ! i = rows ! i
             \<and> item_IPAddress (?rows ! i) = item_IPAddress (rows ! i)
             \<and> (item_IPAddress (rows ! i) = None \<longrightarrow> item_IPAddress (?rows ! i) = None)
             \<and> Log LError ''get ip address failed''
                 [FError e, FString ''ip'' (item_RemoteIP (rows ! i))] \<in> set ?tr"
  proof (intro allI impI)
    fix i e
    assume h: "i < length rows \<and> getIP (item_RemoteIP (rows ! i)) = Inl e"
    then have "rows ! i \<in> set rows" by simp
    from enrich_all_logs [OF cache_ok_empty this, of getIP e] h
    have "Log LError ''get ip address failed''
                 [FError e, FString ''ip'' (item_RemoteIP (rows ! i))] \<in> set ?tr" by simp
    moreover from h have "?rows ! i = rows ! i" by (simp add: resolve_row_Inl)
    ultimately show "?rows ! i = rows ! i
             \<and> item_IPAddress (?rows ! i) = item_IPAddress (rows ! i)
             \<and> (item_IPAddress (rows ! i) = None \<longrightarrow> item_IPAddress (?rows ! i) = None)
             \<and> Log LError ''get ip address failed''
                 [FError e, FString ''ip'' (item_RemoteIP (rows ! i))] \<in> set ?tr" by simp
  qed
  have d: "\<forall>i. i < length rows \<longrightarrow> (\<exists>l. ?rows ! i = (rows ! i)\<lparr>item_IPAddress := l\<rparr>)"
  proof (intro allI impI)
    fix i
    assume i: "i < length rows"
    show "\<exists>l. ?rows ! i = (rows ! i)\<lparr>item_IPAddress := l\<rparr>"
    proof (cases "getIP (item_RemoteIP (rows ! i))")
      case (Inl e)
      with i have "?rows ! i = (rows ! i)\<lparr>item_IPAddress := item_IPAddress (rows ! i)\<rparr>"
        by (simp add: resolve_row_Inl)
      then show ?thesis by blast
    next
      case (Inr a)
      with i have "?rows ! i = (rows ! i)\<lparr>item_IPAddress := Some a\<rparr>"
        by (simp add: resolve_row_Inr)
      then show ?thesis by blast
    qed
  qed
  from a b c d
  show "\<exists>tr rows'. GetConversationList repoList getIP req = (tr, Inr (NewPaginatedResult rows' n))
         \<and> length rows' = length rows
         \<and> (\<forall>i e. i < length rows \<and> getIP (item_RemoteIP (rows ! i)) = Inl e \<longrightarrow>
               rows' ! i = rows ! i
             \<and> item_IPAddress (rows' ! i) = item_IPAddress (rows ! i)
             \<and> (item_IPAddress (rows ! i) = None \<longrightarrow> item_IPAddress (rows' ! i) = None)
             \<and> Log LError ''get ip address failed''
                 [FError e, FString ''ip'' (item_RemoteIP (rows ! i))] \<in> set tr)
         \<and> (\<forall>i. i < length rows \<longrightarrow> (\<exists>l. rows' ! i = (rows ! i)\<lparr>item_IPAddress := l\<rparr>))"
    by (intro exI conjI)
next
  fix c e ms rs
  assume "repoDetail cid = Inr c \<and> getIP (detail_RemoteIP c) = Inl e
          \<and> repoMessages cid = Inr ms \<and> repoReferences cid = Inr rs"
  then have "GetConversationDetail repoDetail getIP repoMessages repoReferences cid =
          ([RepoGetConversationDetail cid, IPRepoGetIPAddress (detail_RemoteIP c),
            Log LError ''get ip address failed'' [FError e, FString ''ip'' (detail_RemoteIP c)],
            RepoGetConversationMessagesByID cid, RepoGetConversationReferences cid],
           Inr (c\<lparr>detail_Messages := ms, detail_References := rs\<rparr>))"
    by (simp add: GetConversationDetail_def)
  then show "\<exists>d. GetConversationDetail repoDetail getIP repoMessages repoReferences cid =
          ([RepoGetConversationDetail cid, IPRepoGetIPAddress (detail_RemoteIP c),
            Log LError ''get ip address failed'' [FError e, FString ''ip'' (detail_RemoteIP c)],
            RepoGetConversationMessagesByID cid, RepoGetConversationReferences cid],
           Inr d)
          \<and> d = c\<lparr>detail_Messages := ms, detail_References := rs\<rparr>
          \<and> detail_IPAddress d = detail_IPAddress c
          \<and> (detail_IPAddress c = None \<longrightarrow> detail_IPAddress d = None)"
    by simp
qed

theorem enrichment_failure_not_fatal_witness:
  "\<exists>tr rows'.
     GetConversationList
       (\<lambda>q. Inr ([\<lparr>item_RemoteIP = ''not-an-ip'', item_IPAddress = None\<rparr>,
                   \<lparr>item_RemoteIP = ''203.0.113.9'', item_IPAddress = None\<rparr>], 2))
       (\<lambda>ip. if ip = ''203.0.113.9''
             then Inr \<lparr>Country = ''CN'', Province = ''Zhejiang'', City = ''Hangzhou''\<rparr>
             else Inl (Err ''invalid ip'')) () =
       (tr, Inr (NewPaginatedResult rows' 2))
     \<and> length rows' = 2
     \<and> rows' ! 0 = \<lparr>item_RemoteIP = ''not-an-ip'', item_IPAddress = None\<rparr>
     \<and> item_IPAddress (rows' ! 0) = None
     \<and> Log LError ''get ip address failed'' [FError (Err ''invalid ip''), FString ''ip'' ''not-an-ip'']
         \<in> set tr"
proof -
  let ?rows = "[\<lparr>item_RemoteIP = ''not-an-ip'', item_IPAddress = None\<rparr>,
                \<lparr>item_RemoteIP = ''203.0.113.9'', item_IPAddress = None\<rparr>]"
  let ?repo = "\<lambda>q::unit. (Inr (?rows, 2) :: error + ConversationListItem list \<times> nat)"
  let ?ip = "\<lambda>ip. if ip = ''203.0.113.9''
             then Inr \<lparr>Country = ''CN'', Province = ''Zhejiang'', City = ''Hangzhou''\<rparr>
             else Inl (Err ''invalid ip'')"
  let ?Q = "\<lambda>tr rows'. \<forall>i e. i < length ?rows \<and> ?ip (item_RemoteIP (?rows ! i)) = Inl e \<longrightarrow>
               rows' ! i = ?rows ! i
             \<and> item_IPAddress (rows' ! i) = item_IPAddress (?rows ! i)
             \<and> (item_IPAddress (?rows ! i) = None \<longrightarrow> item_IPAddress (rows' ! i) = None)
             \<and> Log LError ''get ip address failed''
                 [FError e, FString ''ip'' (item_RemoteIP (?rows ! i))] \<in> set tr"
  let ?P = "\<lambda>tr rows'. GetConversationList ?repo ?ip () = (tr, Inr (NewPaginatedResult rows' 2))
         \<and> length rows' = length ?rows
         \<and> ?Q tr rows'
         \<and> (\<forall>i. i < length ?rows \<longrightarrow> (\<exists>l. rows' ! i = (?rows ! i)\<lparr>item_IPAddress := l\<rparr>))"
  have h: "?repo () = Inr (?rows, 2)" by simp
  from enrichment_failure_not_fatal [of ?repo "()" ?ip]
  have "\<forall>rows n. ?repo () = Inr (rows, n) \<longrightarrow>
      (\<exists>tr rows'. GetConversationList ?repo ?ip () = (tr, Inr (NewPaginatedResult rows' n))
         \<and> length rows' = length rows
         \<and> (\<forall>i e. i < length rows \<and> ?ip (item_RemoteIP (rows ! i)) = Inl e \<longrightarrow>
               rows' ! i = rows ! i
             \<and> item_IPAddress (rows' ! i) = item_IPAddress (rows ! i)
             \<and> (item_IPAddress (rows ! i) = None \<longrightarrow> item_IPAddress (rows' ! i) = None)
             \<and> Log LError ''get ip address failed''
                 [FError e, FString ''ip'' (item_RemoteIP (rows ! i))] \<in> set tr)
         \<and> (\<forall>i. i < length rows \<longrightarrow> (\<exists>l. rows' ! i = (rows ! i)\<lparr>item_IPAddress := l\<rparr>)))"
    by (rule conjunct1)
  from this [rule_format, OF h] have "\<exists>tr rows'. ?P tr rows'" .
  then obtain tr where "\<exists>rows'. ?P tr rows'" ..
  then obtain rows' where p: "?P tr rows'" ..
  from p have 1: "GetConversationList ?repo ?ip () = (tr, Inr (NewPaginatedResult rows' 2))"
    by (rule conjunct1)
  from p have 2: "length rows' = 2" by simp
  from p have 3: "?Q tr rows'" by (elim conjE)
  from 3 [rule_format, of 0 "Err ''invalid ip''"]
  have 4: "rows' ! 0 = \<lparr>item_RemoteIP = ''not-an-ip'', item_IPAddress = None\<rparr>
     \<and> item_IPAddress (rows' ! 0) = None
     \<and> Log LError ''get ip address failed'' [FError (Err ''invalid ip''), FString ''ip'' ''not-an-ip'']
         \<in> set tr" by simp
  from 1 2 4 have "GetConversationList ?repo ?ip () = (tr, Inr (NewPaginatedResult rows' 2))
     \<and> length rows' = 2
     \<and> rows' ! 0 = \<lparr>item_RemoteIP = ''not-an-ip'', item_IPAddress = None\<rparr>
     \<and> item_IPAddress (rows' ! 0) = None
     \<and> Log LError ''get ip address failed'' [FError (Err ''invalid ip''), FString ''ip'' ''not-an-ip'']
         \<in> set tr" by (intro conjI) (elim conjE, assumption)+
  then show ?thesis by (intro exI)
qed

text \<open>
  The claim as first stated, that the record comes back with no location, fails for a
  record that the store returns with one: neither call clears the field when the lookup
  fails.
\<close>

theorem enrichment_failure_not_fatal_counterexample:
  "snd (GetConversationList
       (\<lambda>q. Inr ([\<lparr>item_RemoteIP = ''not-an-ip'',
                    item_IPAddress = Some \<lparr>Country = ''CN'', Province = ''Zhejiang'', City = ''Hangzhou''\<rparr>\<rparr>], 1))
       (\<lambda>ip. Inl (Err ''invalid ip'')) ()) =
     Inr (NewPaginatedResult
       [\<lparr>item_RemoteIP = ''not-an-ip'',
         item_IPAddress = Some \<lparr>Country = ''CN'', Province = ''Zhejiang'', City = ''Hangzhou''\<rparr>\<rparr>] 1)
   \<and> snd (GetConversationDetail
       (\<lambda>i. Inr \<lparr>detail_RemoteIP = ''not-an-ip'',
                   detail_IPAddress = Some \<lparr>Country = ''CN'', Province = ''Zhejiang'', City = ''Hangzhou''\<rparr>,
                   detail_Messages = ([] :: string list), detail_References = ([] :: string list)\<rparr>)
       (\<lambda>ip. Inl (Err ''invalid ip'')) (\<lambda>i. Inr [''hello'']) (\<lambda>i. Inr [''ref'']) ''conv-7'') =
     Inr \<lparr>detail_RemoteIP = ''not-an-ip'',
          detail_IPAddress = Some \<lparr>Country = ''CN'', Province = ''Zhejiang'', City = ''Hangzhou''\<rparr>,
          detail_Messages = [''hello''], detail_References = [''ref'']\<rparr>"
  by (simp add: GetConversationList_def GetConversationDetail_def enrich_def)

text \<open>
  C8, as amended. Within one \<open>GetConversationList\<close> call, an address that resolves is looked
  up exactly once when some row carries it, and every row that carries it gets the resolved
  location; an address that does not resolve is looked up once for every row that carries
  it, since the map only stores resolved locations.
\<close>

theorem GetConversationList_lookups:
  assumes "repoList req = Inr (rows, n)"
  shows "(\<forall>a. getIP ip = Inr a \<longrightarrow>
            count_list (fst (GetConversationList repoList getIP req)) (IPRepoGetIPAddress ip) =
              (if ip \<in> item_RemoteIP ` set rows then 1 else 0)
          \<and> (\<exists>rows'. snd (GetConversationList repoList getIP req) = Inr (NewPaginatedResult rows' n)
                \<and> length rows' = length rows
                \<and> (\<forall>i. i < length rows \<and> item_RemoteIP (rows ! i) = ip \<longrightarrow>
                      rows' ! i = (rows ! i)\<lparr>item_IPAddress := Some a\<rparr>)))
       \<and> (\<forall>e. getIP ip = Inl e \<longrightarrow>
            count_list (fst (GetConversationList repoList getIP req)) (IPRepoGetIPAddress ip) =
              length (filter (\<lambda>c. item_RemoteIP c = ip) rows))"
proof -
  let ?tr = "snd (snd (enrich_all getIP rows (Map.empty, [RepoGetConversationList])))"
  let ?rows = "map (resolve_row getIP) rows"
  have r: "GetConversationList repoList getIP req = (?tr, Inr (NewPaginatedResult ?rows n))"
    using assms by (rule GetConversationList_Inr)
  have cnt: "count_list ?tr (IPRepoGetIPAddress ip) =
     (case getIP ip of
        Inl e \<Rightarrow> length (filter (\<lambda>c. item_RemoteIP c = ip) rows)
      | Inr a \<Rightarrow> (if ip \<in> item_RemoteIP ` set rows then 1 else 0))"
    using enrich_all_lookups [OF cache_ok_empty, of getIP rows "[RepoGetConversationList]" ip]
    by simp
  have rows: "\<forall>i. i < length rows \<and> item_RemoteIP (rows ! i) = ip \<longrightarrow>
                ?rows ! i = (rows ! i)\<lparr>item_IPAddress := Some a\<rparr>" if "getIP ip = Inr a" for a
    using that by (simp add: resolve_row_def)
  show ?thesis
  proof (intro conjI allI impI)
    fix a
    assume a: "getIP ip = Inr a"
    with cnt show "count_list (fst (GetConversationList repoList getIP req)) (IPRepoGetIPAddress ip) =
              (if ip \<in> item_RemoteIP ` set rows then 1 else 0)"
      by (simp add: r)
    from rows [OF a]
    have "snd (GetConversationList repoList getIP req) = Inr (NewPaginatedResult ?rows n)
        \<and> length ?rows = length rows
        \<and> (\<forall>i. i < length rows \<and> item_RemoteIP (rows ! i) = ip \<longrightarrow>
              ?rows ! i = (rows ! i)\<lparr>item_IPAddress := Some a\<rparr>)"
      by (simp add: r)
    then show "\<exists>rows'. snd (GetConversationList repoList getIP req) = Inr (NewPaginatedResult rows' n)
                \<and> length rows' = length rows
                \<and> (\<forall>i. i < length rows \<and> item_RemoteIP (rows ! i) = ip \<longrightarrow>
                      rows' ! i = (rows ! i)\<lparr>item_IPAddress := Some a\<rparr>)"
      by blast
  next
    fix e
    assume "getIP ip = Inl e"
    with cnt show "count_list (fst (GetConversationList repoList getIP req)) (IPRepoGetIPAddress ip) =
              length (filter (\<lambda>c. item_RemoteIP c = ip) rows)"
      by (simp add: r)
  qed
qed

theorem GetConversationList_lookups_witness:
  "count_list (fst (GetConversationList
       (\<lambda>q. Inr ([\<lparr>item_RemoteIP = ''203.0.113.9'', item_IPAddress = None\<rparr>,
                   \<lparr>item_RemoteIP = ''198.51.100.4'', item_IPAddress = None\<rparr>,
                   \<lparr>item_RemoteIP = ''203.0.113.9'', item_IPAddress = None\<rparr>], 3))
       (\<lambda>ip. Inr \<lparr>Country = ''CN'', Province = ''Zhejiang'', City = ''Hangzhou''\<rparr>) ()))
     (IPRepoGetIPAddress ''203.0.113.9'') = 1"
proof -
  let ?rows = "[\<lparr>item_RemoteIP = ''203.0.113.9'', item_IPAddress = None\<rparr>,
                \<lparr>item_RemoteIP = ''198.51.100.4'', item_IPAddress = None\<rparr>,
                \<lparr>item_RemoteIP = ''203.0.113.9'', item_IPAddress = None\<rparr>]"
  let ?repo = "\<lambda>q::unit. (Inr (?rows, 3) :: error + ConversationListItem list \<times> nat)"
  let ?ip = "\<lambda>ip::string. (Inr \<lparr>Country = ''CN'', Province = ''Zhejiang'', City = ''Hangzhou''\<rparr>
                :: error + IPAddress)"
  have h: "?repo () = Inr (?rows, 3)" by simp
  from GetConversationList_lookups [of ?repo "()" ?rows 3 ?ip "''203.0.113.9''", OF h]
  show ?thesis by simp
qed

text \<open>
  The claim as first stated, at most one lookup for an address shared by several rows, fails
  for an address that does not resolve: two rows, two lookups.
\<close>

theorem GetConversationList_lookups_counterexample:
  "count_list (fst (GetConversationList
       (\<lambda>q. Inr ([\<lparr>item_RemoteIP = ''not-an-ip'', item_IPAddress = None\<rparr>,
                   \<lparr>item_RemoteIP = ''not-an-ip'', item_IPAddress = None\<rparr>], 2))
       (\<lambda>ip. Inl (Err ''invalid ip'')) ()))
     (IPRepoGetIPAddress ''not-an-ip'') = 2"
  by (simp add: GetConversationList_def enrich_def)

section \<open>Properties of the nonce check and of the retention sweep\<close>

lemma validate_used:
  assumes "store c = Some en" and "nonce_value en = n" and "nonce_used en"
  shows "validateAndConsumeNonce c n store = (NonceAlreadyUsed, store)"
  using assms by (simp add: validateAndConsumeNonce_def)

lemma validate_keeps_used:
  assumes "store c = Some en" and "nonce_value en = n" and "nonce_used en"
  shows "\<exists>en'. snd (validateAndConsumeNonce c' n' store) c = Some en' \<and> nonce_value en' = n \<and> nonce_used en'"
proof (cases "store c'")
  case None
  with assms show ?thesis by (simp add: validateAndConsumeNonce_def)
next
  case (Some x)
  show ?thesis
  proof (cases "c' = c")
    case True
    with Some assms have "x = en" by simp
    with True Some assms show ?thesis by (simp add: validateAndConsumeNonce_def)
  next
    case False
    with Some assms show ?thesis by (simp add: validateAndConsumeNonce_def)
  qed
qed

lemma validate_all_keeps_used:
  "store c = Some en \<Longrightarrow> nonce_value en = n \<Longrightarrow> nonce_used en \<Longrightarrow>
   \<exists>en'. validate_all ops store c = Some en' \<and> nonce_value en' = n \<and> nonce_used en'"
proof (induction ops arbitrary: store en)
  case Nil
  then show ?case by simp
next
  case (Cons op ops)
  obtain c' n' where op: "op = (c', n')" by (cases op)
  from validate_keeps_used [of store c en n c' n', OF Cons.prems]
  obtain en' where "snd (validateAndConsumeNonce c' n' store) c = Some en'"
    and "nonce_value en' = n" and "nonce_used en'" by blast
  from Cons.IH [of "snd (validateAndConsumeNonce c' n' store)" en', OF this]
  show ?case by (simp add: op ValidateConversationNonce_def)
qed

lemma validate_ok_marks_used:
  assumes "fst (validateAndConsumeNonce c n store) = NonceOk"
  shows "\<exists>en. snd (validateAndConsumeNonce c n store) c = Some en \<and> nonce_value en = n \<and> nonce_used en"
proof (cases "store c")
  case None
  with assms show ?thesis by (simp add: validateAndConsumeNonce_def)
next
  case (Some x)
  with assms have "nonce_value x = n" and "\<not> nonce_used x"
    by (simp_all add: validateAndConsumeNonce_def split: if_splits)
  with Some show ?thesis by (simp add: validateAndConsumeNonce_def)
qed

text \<open>
  C5. When a validation of a nonce for a conversation succeeds, the next validation of the
  same pair reports that the nonce was already used, and so does every later one, whatever
  validations come in between.
\<close>

theorem nonce_single_use:
  assumes "fst (ValidateConversationNonce validateAndConsumeNonce conversationID nonce store) = NonceOk"
  shows "fst (ValidateConversationNonce validateAndConsumeNonce conversationID nonce
               (snd (ValidateConversationNonce validateAndConsumeNonce conversationID nonce store)))
           = NonceAlreadyUsed
       \<and> (\<forall>ops. fst (ValidateConversationNonce validateAndConsumeNonce conversationID nonce
               (validate_all ops
                  (snd (ValidateConversationNonce validateAndConsumeNonce conversationID nonce store))))
           = NonceAlreadyUsed)"
proof -
  let ?s = "snd (validateAndConsumeNonce conversationID nonce store)"
  from assms have "fst (validateAndConsumeNonce conversationID nonce store) = NonceOk"
    by (simp add: ValidateConversationNonce_def)
  from validate_ok_marks_used [OF this]
  obtain en where en: "?s conversationID = Some en" "nonce_value en = nonce" "nonce_used en"
    by blast
  have later: "fst (validateAndConsumeNonce conversationID nonce (validate_all ops ?s)) = NonceAlreadyUsed"
    for ops
  proof -
    from validate_all_keeps_used [of ?s conversationID en nonce ops, OF en]
    obtain en' where "validate_all ops ?s conversationID = Some en'"
      and "nonce_value en' = nonce" and "nonce_used en'" by blast
    from validate_used [of "validate_all ops ?s" conversationID en' nonce, OF this]
    show ?thesis by simp
  qed
  from later [of "[]"] later show ?thesis
    by (simp add: ValidateConversationNonce_def)
qed

theorem nonce_single_use_witness:
  "fst (ValidateConversationNonce validateAndConsumeNonce ''conv-7'' ''n-41''
          [''conv-7'' \<mapsto> \<lparr>nonce_value = ''n-41'', nonce_used = False\<rparr>]) = NonceOk
   \<and> fst (ValidateConversationNonce validateAndConsumeNonce ''conv-7'' ''n-41''
          (snd (ValidateConversationNonce validateAndConsumeNonce ''conv-7'' ''n-41''
             [''conv-7'' \<mapsto> \<lparr>nonce_value = ''n-41'', nonce_used = False\<rparr>]))) = NonceAlreadyUsed"
proof -
  have h: "fst (ValidateConversationNonce validateAndConsumeNonce ''conv-7'' ''n-41''
          [''conv-7'' \<mapsto> \<lparr>nonce_value = ''n-41'', nonce_used = False\<rparr>]) = NonceOk"
    by (simp add: ValidateConversationNonce_def validateAndConsumeNonce_def)
  from nonce_single_use [OF h] h show ?thesis by (intro conjI) (elim conjE, assumption)+
qed

text \<open>
  C9. A tick calls the repository once. With the deletion of the repository, every record
  older than 24 hours at the tick is gone after it and every record newer than 24 hours is
  still there. When the repository reports an error, the tick logs it and ends: its trace
  holds the one call and the log entries, and the data are as the repository left them.
\<close>

theorem sweep_tick:
  "(\<forall>r \<in> set db. timestamp r < now - 24 * 3600 \<longrightarrow>
       r \<notin> set (snd (RemoveOldStatData (RemoveOldData now) db)))
   \<and> (\<forall>r \<in> set db. now - 24 * 3600 < timestamp r \<longrightarrow>
       r \<in> set (snd (RemoveOldStatData (RemoveOldData now) db)))
   \<and> fst (RemoveOldStatData (RemoveOldData now) db) =
         [Log LInfo ''remove old stat data start'' [], StatRepoRemoveOldData,
          Log LInfo ''remove old stat data successful'' []]
   \<and> (\<forall>e db1. removeOldData db0 = (Some e, db1) \<longrightarrow>
       RemoveOldStatData removeOldData db0 =
         ([Log LInfo ''remove old stat data start'' [], StatRepoRemoveOldData,
           Log LError ''remove old stat data failed'' [FError e],
           Log LInfo ''remove old stat data successful'' []], db1))"
proof -
  have kept: "snd (RemoveOldStatData (RemoveOldData now) db) =
                filter (\<lambda>r. \<not> timestamp r < now - 24 * 3600) db"
    by (simp add: RemoveOldStatData_def RemoveOldData_def)
  have old: "\<forall>r \<in> set db. timestamp r < now - 24 * 3600 \<longrightarrow>
       r \<notin> set (snd (RemoveOldStatData (RemoveOldData now) db))"
    by (simp add: kept)
  have new: "\<forall>r \<in> set db. now - 24 * 3600 < timestamp r \<longrightarrow>
       r \<in> set (snd (RemoveOldStatData (RemoveOldData now) db))"
    by (simp add: kept)
  have once: "fst (RemoveOldStatData (RemoveOldData now) db) =
         [Log LInfo ''remove old stat data start'' [], StatRepoRemoveOldData,
          Log LInfo ''remove old stat data successful'' []]"
    by (simp add: RemoveOldStatData_def RemoveOldData_def)
  have failed: "\<forall>e db1. removeOldData db0 = (Some e, db1) \<longrightarrow>
       RemoveOldStatData removeOldData db0 =
         ([Log LInfo ''remove old stat data start'' [], StatRepoRemoveOldData,
           Log LError ''remove old stat data failed'' [FError e],
           Log LInfo ''remove old stat data successful'' []], db1)"
    by (simp add: RemoveOldStatData_def)
  from old new once failed show ?thesis by (intro conjI)
qed

theorem sweep_tick_witness:
  "snd (RemoveOldStatData (RemoveOldData 200000)
          [\<lparr>timestamp = 100000\<rparr>, \<lparr>timestamp = 150000\<rparr>]) = [\<lparr>timestamp = 150000\<rparr>]
   \<and> RemoveOldStatData (\<lambda>db. (Some (Err ''db down''), db)) [\<lparr>timestamp = 100000\<rparr>] =
         ([Log LInfo ''remove old stat data start'' [], StatRepoRemoveOldData,
           Log LError ''remove old stat data failed'' [FError (Err ''db down'')],
           Log LInfo ''remove old stat data successful'' []], [\<lparr>timestamp = 100000\<rparr>])"
proof -
  let ?db = "[\<lparr>timestamp = 100000\<rparr>, \<lparr>timestamp = 150000\<rparr>]"
  let ?out = "snd (RemoveOldStatData (RemoveOldData 200000) ?db)"
  from sweep_tick [of ?db 200000 "\<lambda>db. (Some (Err ''db down''), db)" "[\<lparr>timestamp = 100000\<rparr>]"]
  have a: "\<lparr>timestamp = 100000\<rparr> \<notin> set ?out" and b: "\<lparr>timestamp = 150000\<rparr> \<in> set ?out"
    and c: "RemoveOldStatData (\<lambda>db. (Some (Err ''db down''), db)) [\<lparr>timestamp = 100000\<rparr>] =
         ([Log LInfo ''remove old stat data start'' [], StatRepoRemoveOldData,
           Log LError ''remove old stat data failed'' [FError (Err ''db down'')],
           Log LInfo ''remove old stat data successful'' []], [\<lparr>timestamp = 100000\<rparr>])"
    by simp_all
  have "?out = filter (\<lambda>r. r \<in> set ?out) ?db"
    by (simp add: RemoveOldStatData_def RemoveOldData_def)
  with a b have "?out = [\<lparr>timestamp = 150000\<rparr>]" by simp
  with c show ?thesis by simp
qed

end
